theory Spec2Isabelle
  imports
    Complex_Main
    "HOL-Library.Multiset"
    "HOL-Library.Char_ord"
    "HOL-Library.List_Lexorder"
    "HOL-Library.Product_Lexorder"
begin

section \<open>Route finding: road maps, search nodes, frontiers and the five searches\<close>

text \<open>
  A shallow embedding of \<^verbatim>\<open>route.py\<close>, \<^verbatim>\<open>heuristic.py\<close> and the search drivers
  \<^verbatim>\<open>bfs.py\<close>, \<^verbatim>\<open>dfs.py\<close>, \<^verbatim>\<open>ucost.py\<close>, \<^verbatim>\<open>greedy.py\<close>, \<^verbatim>\<open>astar.py\<close>.

  Conventions of the embedding.
  \<^item> A location and a road name are Python strings: \<open>string\<close>, compared as Python
    compares them (lexicographically, character by character).
  \<^item> A Python \<open>float\<close> is a \<open>real\<close>: costs and coordinates are added, compared and
    divided exactly; rounding, infinities and NaN are outside the model.
  \<^item> A Python \<open>dict\<close> is an association list in insertion order; a lookup reads the first
    entry of its key, a store replaces that entry in place or appends a new one.
  \<^item> A method that mutates its object returns the new object beside its result.
  \<^item> A road map is held by reference: a store gives the map behind each reference, and a
    function that calls methods of a map takes the store and returns it updated.
  \<^item> A raised exception is the left summand of a sum type.
\<close>

subsection \<open>Exceptions\<close>

datatype py_error =
    KeyError
  | TypeError
  | ValueError
  | ZeroDivisionError
  | IndexError
  | AttributeError
  | Exception string

subsection \<open>Dictionaries\<close>

type_synonym ('k, 'v) dict = "('k \<times> 'v) list"

definition dict_get :: "('k, 'v) dict \<Rightarrow> 'k \<Rightarrow> 'v option" where
  "dict_get d k = map_of d k"

fun dict_set :: "('k, 'v) dict \<Rightarrow> 'k \<Rightarrow> 'v \<Rightarrow> ('k, 'v) dict" where
  "dict_set [] k v = [(k, v)]"
| "dict_set ((k', v') # d) k v = (if k' = k then (k, v) # d else (k', v') # dict_set d k v)"

definition setdefault :: "('k, 'v) dict \<Rightarrow> 'k \<Rightarrow> 'v \<Rightarrow> 'v \<times> ('k, 'v) dict" where
  "setdefault d k v = (case dict_get d k of Some x \<Rightarrow> (x, d) | None \<Rightarrow> (v, d @ [(k, v)]))"

definition keys :: "('k, 'v) dict \<Rightarrow> 'k list" where
  "keys d = map fst d"

subsection \<open>RoadMap\<close>

type_synonym location = string

record RoadMap =
  connection_dict :: "(location, (location, real) dict) dict"
  road_dict :: "(location, (string, location) dict) dict"
  loc_dict :: "(location, real \<times> real) dict"

text \<open>\<^verbatim>\<open>RoadMap()\<close> with no argument: three empty dictionaries.\<close>

definition RoadMap_init :: RoadMap where
  "RoadMap_init = \<lparr>connection_dict = [], road_dict = [], loc_dict = []\<rparr>"

definition add_location :: "RoadMap \<Rightarrow> location \<Rightarrow> real \<Rightarrow> real \<Rightarrow> RoadMap" where
  "add_location m l longitude latitude =
     m\<lparr>loc_dict := dict_set (loc_dict m) l (longitude, latitude)\<rparr>"

text \<open>
  \<^verbatim>\<open>add_road(start, end, name=None, cost=1.0)\<close>: the inner dictionary found or created
  by \<^verbatim>\<open>setdefault\<close> is updated in place.
\<close>

definition add_road :: "RoadMap \<Rightarrow> location \<Rightarrow> location \<Rightarrow> string option \<Rightarrow> real \<Rightarrow> RoadMap" where
  "add_road m s e name cost =
     (let (succs, cd) = setdefault (connection_dict m) s [];
          m1 = m\<lparr>connection_dict := dict_set cd s (dict_set succs e cost)\<rparr>
      in case name of
           None \<Rightarrow> m1
         | Some nm \<Rightarrow>
             (let (rs, rd) = setdefault (road_dict m1) s []
              in m1\<lparr>road_dict := dict_set rd s (dict_set rs nm e)\<rparr>))"

definition locations :: "RoadMap \<Rightarrow> location list" where
  "locations m = keys (loc_dict m)"

text \<open>
  \<^verbatim>\<open>get(start)\<close> with \<^verbatim>\<open>end=None\<close> returns the inner dictionary, \<^verbatim>\<open>get(start, end)\<close>
  the cost or \<^verbatim>\<open>None\<close>; both go through \<^verbatim>\<open>setdefault\<close> on the outer dictionary.
\<close>

definition get_dict :: "RoadMap \<Rightarrow> location \<Rightarrow> (location, real) dict \<times> RoadMap" where
  "get_dict m s =
     (let (successors, cd) = setdefault (connection_dict m) s []
      in (successors, m\<lparr>connection_dict := cd\<rparr>))"

definition get :: "RoadMap \<Rightarrow> location \<Rightarrow> location \<Rightarrow> real option \<times> RoadMap" where
  "get m s e =
     (let (successors, cd) = setdefault (connection_dict m) s []
      in (dict_get successors e, m\<lparr>connection_dict := cd\<rparr>))"

definition get_result_dict :: "RoadMap \<Rightarrow> location \<Rightarrow> (string, location) dict \<times> RoadMap" where
  "get_result_dict m s =
     (let (successors, rd) = setdefault (road_dict m) s []
      in (successors, m\<lparr>road_dict := rd\<rparr>))"

definition get_result :: "RoadMap \<Rightarrow> location \<Rightarrow> string \<Rightarrow> location option \<times> RoadMap" where
  "get_result m s road =
     (let (successors, rd) = setdefault (road_dict m) s []
      in (dict_get successors road, m\<lparr>road_dict := rd\<rparr>))"

text \<open>
  \<^verbatim>\<open>path_cost\<close>: the loop over \<^verbatim>\<open>road_list\<close> with its accumulator and current
  location. \<^verbatim>\<open>total_cost += self.get(loc, next_loc)\<close> raises \<^verbatim>\<open>TypeError\<close> when the
  cost is \<^verbatim>\<open>None\<close>.
\<close>

fun path_cost_loop ::
  "RoadMap \<Rightarrow> real \<Rightarrow> location \<Rightarrow> string list \<Rightarrow> (py_error + real) \<times> RoadMap" where
  "path_cost_loop m total_cost l [] = (Inr total_cost, m)"
| "path_cost_loop m total_cost l (road # roads) =
     (case get_result m l road of
        (None, m1) \<Rightarrow> (Inr 0, m1)
      | (Some next_loc, m1) \<Rightarrow>
          (case get m1 l next_loc of
             (None, m2) \<Rightarrow> (Inl TypeError, m2)
           | (Some c, m2) \<Rightarrow> path_cost_loop m2 (total_cost + c) next_loc roads))"

definition path_cost :: "RoadMap \<Rightarrow> location \<Rightarrow> string list \<Rightarrow> (py_error + real) \<times> RoadMap" where
  "path_cost m s road_list = path_cost_loop m 0 s road_list"

text \<open>
  \<^verbatim>\<open>location_coordinates\<close>: \<^verbatim>\<open>if x and y\<close> is true when both floats are non-zero.
\<close>

definition location_coordinates ::
  "RoadMap \<Rightarrow> location \<Rightarrow> (py_error + real \<times> real) \<times> RoadMap" where
  "location_coordinates m l =
     (let ((x, y), ld) = setdefault (loc_dict m) l (0, 0);
          m' = m\<lparr>loc_dict := ld\<rparr>
      in if x \<noteq> 0 \<and> y \<noteq> 0 then (Inr (x, y), m')
         else (Inl (Exception (''Unknown location - '' @ l)), m'))"

definition euclidean_distance ::
  "RoadMap \<Rightarrow> location \<Rightarrow> location \<Rightarrow> (py_error + real) \<times> RoadMap" where
  "euclidean_distance m loc0 loc1 =
     (case location_coordinates m loc0 of
        (Inl e, m1) \<Rightarrow> (Inl e, m1)
      | (Inr (x0, y0), m1) \<Rightarrow>
          (case location_coordinates m1 loc1 of
             (Inl e, m2) \<Rightarrow> (Inl e, m2)
           | (Inr (x1, y1), m2) \<Rightarrow>
               (Inr (sqrt (((x0 - x1) * (x0 - x1)) + ((y0 - y1) * (y0 - y1)))), m2)))"

subsection \<open>What a road map answers\<close>

text \<open>
  The answers of the two lookups as functions of the dictionaries alone: the end of a named
  road, and the cost of a road segment. An absent start location answers like one with an
  empty inner dictionary.
\<close>

definition edge_of :: "RoadMap \<Rightarrow> location \<Rightarrow> string \<Rightarrow> location option" where
  "edge_of m l road =
     (case dict_get (road_dict m) l of None \<Rightarrow> None | Some d \<Rightarrow> dict_get d road)"

definition cost_of :: "RoadMap \<Rightarrow> location \<Rightarrow> location \<Rightarrow> real option" where
  "cost_of m s e =
     (case dict_get (connection_dict m) s of None \<Rightarrow> None | Some d \<Rightarrow> dict_get d e)"

text \<open>Every named road is a road segment with a cost, as \<^verbatim>\<open>add_road\<close> builds them.\<close>

definition roads_have_costs :: "RoadMap \<Rightarrow> bool" where
  "roads_have_costs m = (\<forall>l road e. edge_of m l road = Some e \<longrightarrow> cost_of m l e \<noteq> None)"

text \<open>
  The spec's reading of a path: every road name resolves from the location reached so far
  (\<open>resolves\<close>), and the costs of the road segments walked (\<open>walk_costs\<close>).
\<close>

fun resolves :: "RoadMap \<Rightarrow> location \<Rightarrow> string list \<Rightarrow> bool" where
  "resolves m l [] = True"
| "resolves m l (road # roads) =
     (case edge_of m l road of None \<Rightarrow> False | Some n \<Rightarrow> resolves m n roads)"

fun walk_costs :: "RoadMap \<Rightarrow> location \<Rightarrow> string list \<Rightarrow> real list option" where
  "walk_costs m l [] = Some []"
| "walk_costs m l (road # roads) =
     (case edge_of m l road of
        None \<Rightarrow> None
      | Some n \<Rightarrow>
          (case cost_of m l n of
             None \<Rightarrow> None
           | Some c \<Rightarrow> map_option ((#) c) (walk_costs m n roads)))"

text \<open>
  \<open>only_appends dflt d d'\<close>: the dictionary \<open>d'\<close> is \<open>d\<close> followed by entries for keys
  that \<open>d\<close> lacks, each holding the default value.
\<close>

definition only_appends :: "'v \<Rightarrow> ('k, 'v) dict \<Rightarrow> ('k, 'v) dict \<Rightarrow> bool" where
  "only_appends dflt d d' =
     (take (length d) d' = d \<and>
      (\<forall>(k, v) \<in> set (drop (length d) d'). v = dflt \<and> dict_get d k = None))"

subsection \<open>Lemmas on dictionaries and lookups\<close>

lemma dict_get_Nil [simp]: "dict_get [] k = None"
  by (simp add: dict_get_def)

lemma dict_get_Cons [simp]:
  "dict_get ((k', v) # d) k = (if k = k' then Some v else dict_get d k)"
  by (simp add: dict_get_def)

lemma dict_get_snoc:
  "dict_get (d @ [(k, v)]) k' =
     (case dict_get d k' of Some x \<Rightarrow> Some x | None \<Rightarrow> if k' = k then Some v else None)"
  by (auto simp: dict_get_def map_add_def split: option.splits)

lemma fst_setdefault:
  "fst (setdefault d k v) = (case dict_get d k of Some x \<Rightarrow> x | None \<Rightarrow> v)"
  by (simp add: setdefault_def split: option.splits)

lemma snd_setdefault:
  "snd (setdefault d k v) = (if dict_get d k = None then d @ [(k, v)] else d)"
  by (auto simp add: setdefault_def split: option.splits)

lemma dict_get_None_iff: "dict_get d k = None \<longleftrightarrow> k \<notin> set (keys d)"
  by (simp add: dict_get_def keys_def map_of_eq_None_iff)

lemma dict_get_dict_set:
  "dict_get (dict_set d k v) k' = (if k' = k then Some v else dict_get d k')"
  by (induction d) (auto simp: dict_get_def)

lemma only_appends_refl: "only_appends dflt d d"
  by (simp add: only_appends_def)

lemma only_appends_snoc:
  "dict_get d k = None \<Longrightarrow> only_appends dflt d (d @ [(k, dflt)])"
  by (simp add: only_appends_def)

lemma only_appends_trans:
  assumes "only_appends dflt d d'" and "only_appends dflt d' d''"
  shows "only_appends dflt d d''"
proof -
  define e1 where "e1 = drop (length d) d'"
  define e2 where "e2 = drop (length d') d''"
  have d': "d' = d @ e1"
    using assms(1) unfolding only_appends_def e1_def by (metis append_take_drop_id)
  have d'': "d'' = d' @ e2"
    using assms(2) unfolding only_appends_def e2_def by (metis append_take_drop_id)
  have p1: "\<And>k v. (k, v) \<in> set e1 \<Longrightarrow> v = dflt \<and> dict_get d k = None"
    using assms(1) unfolding only_appends_def e1_def by auto
  have p2: "\<And>k v. (k, v) \<in> set e2 \<Longrightarrow> v = dflt \<and> dict_get d' k = None"
    using assms(2) unfolding only_appends_def e2_def by auto
  have p2': "\<And>k v. (k, v) \<in> set e2 \<Longrightarrow> dict_get d k = None"
  proof -
    fix k v assume "(k, v) \<in> set e2"
    then have "dict_get d' k = None" using p2 by blast
    then show "dict_get d k = None"
      by (simp add: dict_get_None_iff d' keys_def)
  qed
  show ?thesis
    unfolding only_appends_def using p1 p2 p2' by (auto simp: d'' d')
qed

lemma fst_get_result: "fst (get_result m l road) = edge_of m l road"
  by (auto simp: get_result_def edge_of_def setdefault_def dict_get_def
      split: option.splits prod.splits)

lemma fst_get: "fst (get m s e) = cost_of m s e"
  by (auto simp: get_def cost_of_def setdefault_def dict_get_def
      split: option.splits prod.splits)

lemma snd_get:
  "snd (get m s e) =
     m\<lparr>connection_dict :=
          if s \<in> set (keys (connection_dict m)) then connection_dict m
          else connection_dict m @ [(s, [])]\<rparr>"
  by (auto simp: get_def setdefault_def dict_get_None_iff[symmetric] split: option.splits)

lemma snd_get_dict: "snd (get_dict m s) = snd (get m s e)"
  by (simp add: get_def get_dict_def split: prod.splits)

lemma snd_get_result:
  "snd (get_result m s road) =
     m\<lparr>road_dict :=
          if s \<in> set (keys (road_dict m)) then road_dict m
          else road_dict m @ [(s, [])]\<rparr>"
  by (auto simp: get_result_def setdefault_def dict_get_None_iff[symmetric] split: option.splits)

lemma snd_get_result_dict: "snd (get_result_dict m s) = snd (get_result m s road)"
  by (simp add: get_result_def get_result_dict_def split: prod.splits)

lemma snd_location_coordinates:
  "snd (location_coordinates m l) =
     m\<lparr>loc_dict :=
          if l \<in> set (keys (loc_dict m)) then loc_dict m
          else loc_dict m @ [(l, (0, 0))]\<rparr>"
  by (auto simp: location_coordinates_def setdefault_def dict_get_None_iff[symmetric]
      split: option.splits prod.splits)

lemma edge_of_get_result [simp]: "edge_of (snd (get_result m l road)) = edge_of m"
  by (auto simp: get_result_def edge_of_def setdefault_def dict_get_def map_add_def fun_eq_iff
      split: option.splits prod.splits if_splits)

lemma cost_of_get_result [simp]: "cost_of (snd (get_result m l road)) = cost_of m"
  by (auto simp: get_result_def cost_of_def setdefault_def fun_eq_iff
      split: option.splits prod.splits)

lemma edge_of_get [simp]: "edge_of (snd (get m s e)) = edge_of m"
  by (auto simp: get_def edge_of_def setdefault_def fun_eq_iff
      split: option.splits prod.splits)

lemma cost_of_get [simp]: "cost_of (snd (get m s e)) = cost_of m"
  by (auto simp: get_def cost_of_def setdefault_def dict_get_def map_add_def fun_eq_iff
      split: option.splits prod.splits if_splits)

lemma resolves_cong: "edge_of m' = edge_of m \<Longrightarrow> resolves m' l roads = resolves m l roads"
  by (induction roads arbitrary: l) (auto split: option.splits)

lemma walk_costs_cong:
  "edge_of m' = edge_of m \<Longrightarrow> cost_of m' = cost_of m \<Longrightarrow>
   walk_costs m' l roads = walk_costs m l roads"
  by (induction roads arbitrary: l) (auto split: option.splits)

lemma roads_have_costs_cong:
  "edge_of m' = edge_of m \<Longrightarrow> cost_of m' = cost_of m \<Longrightarrow>
   roads_have_costs m' = roads_have_costs m"
  by (simp add: roads_have_costs_def)

text \<open>One turn of the loop of \<^verbatim>\<open>path_cost\<close> on a road that resolves and has a cost.\<close>

lemma path_cost_loop_step:
  assumes "edge_of m l road = Some n" and "cost_of m l n = Some c"
  shows "\<exists>m2. path_cost_loop m t l (road # roads) = path_cost_loop m2 (t + c) n roads
            \<and> edge_of m2 = edge_of m \<and> cost_of m2 = cost_of m
            \<and> m2 = snd (get (snd (get_result m l road)) l n)"
proof -
  obtain m1 where m1: "get_result m l road = (Some n, m1)"
    using assms(1) fst_get_result[of m l road] by (cases "get_result m l road") simp
  have e1: "edge_of m1 = edge_of m" and c1: "cost_of m1 = cost_of m"
    using edge_of_get_result[of m l road] cost_of_get_result[of m l road] m1 by simp_all
  obtain m2 where m2: "get m1 l n = (Some c, m2)"
    using assms(2) c1 fst_get[of m1 l n] by (cases "get m1 l n") simp
  have e2: "edge_of m2 = edge_of m" and c2: "cost_of m2 = cost_of m"
    using edge_of_get[of m1 l n] cost_of_get[of m1 l n] m2 e1 c1 by simp_all
  show ?thesis using m1 m2 e2 c2 by simp
qed

lemma path_cost_loop_unresolved:
  "roads_have_costs m \<Longrightarrow> \<not> resolves m l roads \<Longrightarrow> fst (path_cost_loop m t l roads) = Inr 0"
proof (induction roads arbitrary: m t l)
  case Nil
  then show ?case by simp
next
  case (Cons road roads)
  show ?case
  proof (cases "edge_of m l road")
    case None
    then have "fst (get_result m l road) = None" by (simp add: fst_get_result)
    then show ?thesis by (cases "get_result m l road") simp
  next
    case (Some n)
    then obtain c where c: "cost_of m l n = Some c"
      using Cons.prems(1) unfolding roads_have_costs_def by blast
    from path_cost_loop_step[OF Some c, of t roads] obtain m2 where
      step: "path_cost_loop m t l (road # roads) = path_cost_loop m2 (t + c) n roads"
      and e2: "edge_of m2 = edge_of m" and c2: "cost_of m2 = cost_of m" by blast
    have "roads_have_costs m2" using Cons.prems(1) roads_have_costs_cong[OF e2 c2] by simp
    moreover have "\<not> resolves m2 n roads"
      using Cons.prems(2) Some resolves_cong[OF e2] by simp
    ultimately show ?thesis using Cons.IH step by simp
  qed
qed

lemma path_cost_loop_resolved:
  "roads_have_costs m \<Longrightarrow> resolves m l roads \<Longrightarrow>
   \<exists>cs. walk_costs m l roads = Some cs \<and> fst (path_cost_loop m t l roads) = Inr (t + sum_list cs)"
proof (induction roads arbitrary: m t l)
  case Nil
  then show ?case by simp
next
  case (Cons road roads)
  from Cons.prems(2) obtain n where n: "edge_of m l road = Some n" and r: "resolves m n roads"
    by (auto split: option.splits)
  obtain c where c: "cost_of m l n = Some c"
    using n Cons.prems(1) unfolding roads_have_costs_def by blast
  from path_cost_loop_step[OF n c, of t roads] obtain m2 where
    step: "path_cost_loop m t l (road # roads) = path_cost_loop m2 (t + c) n roads"
    and e2: "edge_of m2 = edge_of m" and c2: "cost_of m2 = cost_of m" by blast
  have "roads_have_costs m2" using Cons.prems(1) roads_have_costs_cong[OF e2 c2] by simp
  moreover have "resolves m2 n roads" using r resolves_cong[OF e2] by simp
  ultimately obtain cs where cs: "walk_costs m2 n roads = Some cs"
    and v: "fst (path_cost_loop m2 (t + c) n roads) = Inr (t + c + sum_list cs)"
    using Cons.IH by blast
  have "walk_costs m n roads = Some cs" using cs walk_costs_cong[OF e2 c2] by simp
  then show ?case using n c step v by (simp add: add.assoc)
qed

text \<open>\<^verbatim>\<open>add_road\<close> and \<^verbatim>\<open>add_location\<close> build maps whose named roads all have costs.\<close>

lemma roads_have_costs_init: "roads_have_costs RoadMap_init"
  by (simp add: roads_have_costs_def RoadMap_init_def edge_of_def dict_get_def)

lemma roads_have_costs_add_location:
  "roads_have_costs m \<Longrightarrow> roads_have_costs (add_location m l x y)"
  by (simp add: roads_have_costs_def add_location_def edge_of_def cost_of_def)

lemma cost_of_add_road:
  "cost_of (add_road m s e name cost) s' e' =
     (if s' = s \<and> e' = e then Some cost else cost_of m s' e')"
  by (auto simp: add_road_def cost_of_def dict_get_dict_set dict_get_snoc fst_setdefault
        snd_setdefault Let_def case_prod_beta
      split: option.splits)

lemma edge_of_add_road:
  "edge_of (add_road m s e name cost) s' r =
     (case name of None \<Rightarrow> edge_of m s' r
      | Some nm \<Rightarrow> if s' = s \<and> r = nm then Some e else edge_of m s' r)"
  by (auto simp: add_road_def edge_of_def dict_get_dict_set dict_get_snoc fst_setdefault
        snd_setdefault Let_def case_prod_beta
      split: option.splits)

lemma roads_have_costs_add_road:
  "roads_have_costs m \<Longrightarrow> roads_have_costs (add_road m s e name cost)"
  unfolding roads_have_costs_def
  by (auto simp: cost_of_add_road edge_of_add_road split: option.splits if_splits)

lemma location_coordinates_result:
  "fst (location_coordinates m l) =
     (case dict_get (loc_dict m) l of
        None \<Rightarrow> Inl (Exception (''Unknown location - '' @ l))
      | Some (x, y) \<Rightarrow>
          if x \<noteq> 0 \<and> y \<noteq> 0 then Inr (x, y)
          else Inl (Exception (''Unknown location - '' @ l)))"
  by (auto simp: location_coordinates_def setdefault_def split: option.splits prod.splits)

lemma path_cost_loop_frame:
  "loc_dict (snd (path_cost_loop m t l roads)) = loc_dict m \<and>
   only_appends [] (connection_dict m) (connection_dict (snd (path_cost_loop m t l roads))) \<and>
   only_appends [] (road_dict m) (road_dict (snd (path_cost_loop m t l roads)))"
proof (induction roads arbitrary: m t l)
  case Nil
  then show ?case by (simp add: only_appends_refl)
next
  case (Cons road roads)
  define m1 where "m1 = snd (get_result m l road)"
  have m1: "loc_dict m1 = loc_dict m" "connection_dict m1 = connection_dict m"
    "only_appends [] (road_dict m) (road_dict m1)"
    unfolding m1_def
    by (auto simp: snd_get_result only_appends_refl dict_get_None_iff intro: only_appends_snoc)
  show ?case
  proof (cases "fst (get_result m l road)")
    case None
    then have "path_cost_loop m t l (road # roads) = (Inr 0, m1)"
      by (cases "get_result m l road") (simp add: m1_def)
    then show ?thesis using m1 by (simp add: only_appends_refl)
  next
    case (Some n)
    define m2 where "m2 = snd (get m1 l n)"
    have m2: "loc_dict m2 = loc_dict m" "road_dict m2 = road_dict m1"
      "only_appends [] (connection_dict m) (connection_dict m2)"
      unfolding m2_def using m1
      by (auto simp: snd_get only_appends_refl dict_get_None_iff intro: only_appends_snoc)
    show ?thesis
    proof (cases "fst (get m1 l n)")
      case None
      then have "path_cost_loop m t l (road # roads) = (Inl TypeError, m2)"
        using Some by (cases "get_result m l road"; cases "get m1 l n") (auto simp: m1_def m2_def)
      then show ?thesis using m1 m2 by simp
    next
      case (Some c)
      then have "path_cost_loop m t l (road # roads) = path_cost_loop m2 (t + c) n roads"
        using \<open>fst (get_result m l road) = Some n\<close>
        by (cases "get_result m l road"; cases "get m1 l n") (auto simp: m1_def m2_def)
      then show ?thesis
        using Cons.IH[of m2 "t + c" n] m1 m2 by (auto intro: only_appends_trans)
    qed
  qed
qed

subsection \<open>A small road map for the examples\<close>

text \<open>
  Locations \<open>a\<close> at (1, 1) and \<open>b\<close> at (4, 5); road \<open>r1\<close> from \<open>a\<close> to \<open>b\<close> with cost 2
  and road \<open>r2\<close> from \<open>b\<close> to \<open>c\<close> with cost 3. The location \<open>c\<close> has no coordinates.
\<close>

definition example_map :: RoadMap where
  "example_map =
     add_road (add_road (add_location (add_location RoadMap_init ''a'' 1 1) ''b'' 4 5)
       ''a'' ''b'' (Some ''r1'') 2) ''b'' ''c'' (Some ''r2'') 3"

lemma example_map_eq:
  "example_map = \<lparr>connection_dict = [(''a'', [(''b'', 2)]), (''b'', [(''c'', 3)])],
     road_dict = [(''a'', [(''r1'', ''b'')]), (''b'', [(''r2'', ''c'')])],
     loc_dict = [(''a'', (1, 1)), (''b'', (4, 5))]\<rparr>"
  by (simp add: example_map_def add_road_def add_location_def RoadMap_init_def setdefault_def)

lemma example_map_costs: "roads_have_costs example_map"
  unfolding example_map_def
  by (intro roads_have_costs_add_road roads_have_costs_add_location roads_have_costs_init)

subsection \<open>Claims on the road map\<close>

text \<open>
  Claim C5. The claim says that a location stored with coordinates that are not both zero
  gets its stored pair back. The test \<^verbatim>\<open>if x and y\<close> needs both components non-zero:
  the location \<open>a\<close> stored at (0, 5) is reported as unknown.
\<close>

theorem location_coordinates_on_axis:
  "fst (location_coordinates
          \<lparr>connection_dict = [], road_dict = [], loc_dict = [(''a'', (0, 5))]\<rparr> ''a'')
     = Inl (Exception ''Unknown location - a'')"
  by (simp add: location_coordinates_def setdefault_def)

text \<open>
  Claim C6, as amended. On a map whose named roads all have a cost (every map built by
  \<^verbatim>\<open>add_road\<close>), \<^verbatim>\<open>path_cost\<close> returns 0 for the empty road list, returns 0 whenever
  some road of the list does not resolve from the location reached so far (an unknown start,
  or a valid prefix followed by an invalid step), and otherwise returns the sum of the costs
  of the road segments walked.
\<close>

theorem path_cost_zero_or_sum:
  assumes "roads_have_costs m"
  shows "fst (path_cost m s []) = Inr 0 \<and>
         (\<not> resolves m s road_list \<longrightarrow> fst (path_cost m s road_list) = Inr 0) \<and>
         (resolves m s road_list \<longrightarrow>
            (\<exists>cs. walk_costs m s road_list = Some cs \<and>
                  fst (path_cost m s road_list) = Inr (sum_list cs)))"
proof (intro conjI impI)
  show "fst (path_cost m s []) = Inr 0" by (simp add: path_cost_def)
next
  assume "\<not> resolves m s road_list"
  then show "fst (path_cost m s road_list) = Inr 0"
    unfolding path_cost_def using assms by (rule path_cost_loop_unresolved[rotated])
next
  assume "resolves m s road_list"
  from path_cost_loop_resolved[OF assms this, of 0]
  show "\<exists>cs. walk_costs m s road_list = Some cs \<and>
             fst (path_cost m s road_list) = Inr (sum_list cs)"
    by (simp add: path_cost_def)
qed

theorem path_cost_zero_or_sum_witness:
  "roads_have_costs example_map \<and>
   fst (path_cost example_map ''a'' []) = Inr 0 \<and>
   \<not> resolves example_map ''a'' [''r1'', ''r9''] \<and>
   fst (path_cost example_map ''a'' [''r1'', ''r9'']) = Inr 0 \<and>
   \<not> resolves example_map ''z'' [''r1''] \<and>
   fst (path_cost example_map ''z'' [''r1'']) = Inr 0 \<and>
   resolves example_map ''a'' [''r1'', ''r2''] \<and>
   walk_costs example_map ''a'' [''r1'', ''r2''] = Some [2, 3] \<and>
   fst (path_cost example_map ''a'' [''r1'', ''r2'']) = Inr 5"
proof -
  have r1: "\<not> resolves example_map ''a'' [''r1'', ''r9'']"
    by (simp add: example_map_eq edge_of_def)
  have r2: "\<not> resolves example_map ''z'' [''r1'']"
    by (simp add: example_map_eq edge_of_def)
  have r3: "resolves example_map ''a'' [''r1'', ''r2'']"
    by (simp add: example_map_eq edge_of_def)
  have w: "walk_costs example_map ''a'' [''r1'', ''r2''] = Some [2, 3]"
    by (simp add: example_map_eq edge_of_def cost_of_def)
  show ?thesis
    using path_cost_zero_or_sum[OF example_map_costs, of "''a''" "[''r1'', ''r9'']"]
      path_cost_zero_or_sum[OF example_map_costs, of "''z''" "[''r1'']"]
      path_cost_zero_or_sum[OF example_map_costs, of "''a''" "[''r1'', ''r2'']"]
      example_map_costs r1 r2 r3 w
    by simp
qed

text \<open>
  A map as \<^verbatim>\<open>RoadMap(road_dict={'a': {'r': 'b'}})\<close> builds it: the road \<open>r\<close> leads from
  \<open>a\<close> to \<open>b\<close> and no road segment has a cost.
\<close>

definition costless_road_map :: RoadMap where
  "costless_road_map =
     \<lparr>connection_dict = [], road_dict = [(''a'', [(''r'', ''b'')])], loc_dict = []\<rparr>"

text \<open>
  The claim C6 as stated fails on that map. The road list \<open>[r]\<close> resolves and
  \<^verbatim>\<open>path_cost\<close> raises \<^verbatim>\<open>TypeError\<close> instead of returning a sum; the second road of
  \<open>[r, nope]\<close> does not resolve and \<^verbatim>\<open>path_cost\<close> raises at the first road instead of
  returning 0.
\<close>

theorem path_cost_costless_road_counterexample:
  "resolves costless_road_map ''a'' [''r''] \<and>
   fst (path_cost costless_road_map ''a'' [''r'']) = Inl TypeError \<and>
   \<not> resolves costless_road_map ''a'' [''r'', ''nope''] \<and>
   fst (path_cost costless_road_map ''a'' [''r'', ''nope'']) = Inl TypeError"
  by (simp add: costless_road_map_def edge_of_def path_cost_def get_result_def get_def
      setdefault_def)

section \<open>Search nodes\<close>

text \<open>
  A \<^verbatim>\<open>RoadMap\<close> is a mutable object that a \<^verbatim>\<open>RouteProblem\<close> and a \<^verbatim>\<open>HeuristicFunction\<close>
  hold by reference, and the lookups of a search change it. The store gives the map that
  each reference denotes; two objects that hold the same reference share their map. A method
  called on the map behind a reference reads that map from the store and puts the map it
  leaves back.
\<close>

type_synonym ref = nat

type_synonym store = "ref \<Rightarrow> RoadMap"

definition on_map :: "ref \<Rightarrow> (RoadMap \<Rightarrow> 'a \<times> RoadMap) \<Rightarrow> store \<Rightarrow> 'a \<times> store" where
  "on_map r method s = (case method (s r) of (x, m) \<Rightarrow> (x, s(r := m)))"

text \<open>
  A \<^verbatim>\<open>RouteProblem\<close>: the reference to its map (the attribute \<^verbatim>\<open>map\<close>), its start and its
  optional goal.
\<close>

record RouteProblem =
  rmap :: ref
  start :: location
  goal :: "location option"

text \<open>
  A \<^verbatim>\<open>HeuristicFunction\<close> object: the problem it was built from, the goal and the map of
  that problem (\<^verbatim>\<open>self.map\<close> is the reference \<^verbatim>\<open>problem.map\<close>), the list of ratios it
  scanned and their maximum.
\<close>

record HeuristicFunction =
  h_problem :: RouteProblem
  h_goal :: "location option"
  h_map :: ref
  gasConsumption :: "real list"
  efficientGas :: real

datatype Node =
  Node (loc: location) (parent: "Node option") (road: "string option")
       (node_path_cost: real) (h_eval: real) (h_fun: "HeuristicFunction option") (depth: nat)

text \<open>\<^verbatim>\<open>Node.__init__\<close>: the depth is 0 without a parent, and the parent's depth plus 1 with one.\<close>

definition Node_init ::
  "location \<Rightarrow> Node option \<Rightarrow> string option \<Rightarrow> real \<Rightarrow> real \<Rightarrow> HeuristicFunction option \<Rightarrow> Node"
  where
  "Node_init l p r c h hf =
     Node l p r c h hf (case p of None \<Rightarrow> 0 | Some pn \<Rightarrow> depth pn + 1)"

text \<open>
  A Python value a node is compared with: another node, a location, or \<^verbatim>\<open>None\<close>.
  \<^verbatim>\<open>Node.__eq__\<close> is \<^verbatim>\<open>isinstance(other, Node) and self.loc == other.loc\<close>.
\<close>

datatype py_obj = ObjNode Node | ObjLoc location | ObjNone

fun Node_eq :: "Node \<Rightarrow> py_obj \<Rightarrow> bool" where
  "Node_eq n (ObjNode other) = (loc n = loc other)"
| "Node_eq n (ObjLoc l) = False"
| "Node_eq n ObjNone = False"

text \<open>\<^verbatim>\<open>Node.__hash__\<close> is \<^verbatim>\<open>hash(self.loc)\<close>, for Python's hash \<open>hash_str\<close> of a string.\<close>

definition Node_hash :: "(location \<Rightarrow> int) \<Rightarrow> Node \<Rightarrow> int" where
  "Node_hash hash_str n = hash_str (loc n)"

definition Node_lt :: "Node \<Rightarrow> Node \<Rightarrow> bool" where
  "Node_lt n other = (loc n < loc other)"

text \<open>
  The value passed as \<^verbatim>\<open>sort_by\<close>: a string (\<^verbatim>\<open>'g'\<close>, \<^verbatim>\<open>'h'\<close>, \<^verbatim>\<open>'f'\<close> or another
  one) or a boolean, which equals none of the three strings.
\<close>

datatype py_sort = SortStr string | SortBool bool

definition Node_value :: "Node \<Rightarrow> py_sort \<Rightarrow> real" where
  "Node_value n sb =
     (if sb = SortStr ''g'' then node_path_cost n
      else if sb = SortStr ''h'' then h_eval n
      else if sb = SortStr ''f'' then node_path_cost n + h_eval n
      else 0)"

section \<open>The priority queue: Python's \<^verbatim>\<open>heapq\<close> on a list\<close>

text \<open>
  \<^verbatim>\<open>heapq\<close> as CPython implements it: \<^verbatim>\<open>_siftdown\<close> moves an item towards the root,
  \<^verbatim>\<open>_siftup\<close> moves the smaller child up until a leaf is reached and then sifts the item
  down from there. \<open>lt\<close> is the comparison \<^verbatim>\<open><\<close> of the items. The positions passed
  by \<^verbatim>\<open>heappush\<close>, \<^verbatim>\<open>heappop\<close> and \<^verbatim>\<open>heapify\<close> are inside the list.
\<close>

function siftdown_loop ::
  "('a \<Rightarrow> 'a \<Rightarrow> bool) \<Rightarrow> 'a list \<Rightarrow> nat \<Rightarrow> nat \<Rightarrow> 'a \<Rightarrow> 'a list" where
  "siftdown_loop lt heap startpos pos newitem =
     (if pos > startpos then
        (let parentpos = (pos - 1) div 2;
             parent = heap ! parentpos
         in if lt newitem parent
            then siftdown_loop lt (heap[pos := parent]) startpos parentpos newitem
            else heap[pos := newitem])
      else heap[pos := newitem])"
  by pat_completeness auto
termination
  by (relation "measure (\<lambda>(lt, heap, startpos, pos, newitem). pos)") auto

definition siftdown :: "('a \<Rightarrow> 'a \<Rightarrow> bool) \<Rightarrow> 'a list \<Rightarrow> nat \<Rightarrow> nat \<Rightarrow> 'a list" where
  "siftdown lt heap startpos pos = siftdown_loop lt heap startpos pos (heap ! pos)"

function siftup_loop ::
  "('a \<Rightarrow> 'a \<Rightarrow> bool) \<Rightarrow> 'a list \<Rightarrow> nat \<Rightarrow> nat \<Rightarrow> 'a list \<times> nat" where
  "siftup_loop lt heap pos endpos =
     (let childpos = 2 * pos + 1
      in if childpos < endpos then
           (let rightpos = childpos + 1;
                childpos' = (if rightpos < endpos \<and> \<not> lt (heap ! childpos) (heap ! rightpos)
                             then rightpos else childpos)
            in siftup_loop lt (heap[pos := heap ! childpos']) childpos' endpos)
         else (heap, pos))"
  by pat_completeness auto
termination
  by (relation "measure (\<lambda>(lt, heap, pos, endpos). endpos - pos)") auto

definition siftup :: "('a \<Rightarrow> 'a \<Rightarrow> bool) \<Rightarrow> 'a list \<Rightarrow> nat \<Rightarrow> 'a list" where
  "siftup lt heap pos =
     (let endpos = length heap;
          startpos = pos;
          newitem = heap ! pos;
          (heap', pos') = siftup_loop lt heap pos endpos
      in siftdown lt (heap'[pos' := newitem]) startpos pos')"

definition heappush :: "('a \<Rightarrow> 'a \<Rightarrow> bool) \<Rightarrow> 'a list \<Rightarrow> 'a \<Rightarrow> 'a list" where
  "heappush lt heap item = siftdown lt (heap @ [item]) 0 (length (heap @ [item]) - 1)"

definition heappop :: "('a \<Rightarrow> 'a \<Rightarrow> bool) \<Rightarrow> 'a list \<Rightarrow> py_error + 'a \<times> 'a list" where
  "heappop lt heap =
     (if heap = [] then Inl IndexError
      else (let lastelt = last heap;
                heap' = butlast heap
            in if heap' \<noteq> [] then
                 (let returnitem = heap' ! 0
                  in Inr (returnitem, siftup lt (heap'[0 := lastelt]) 0))
               else Inr (lastelt, heap')))"

definition heapify :: "('a \<Rightarrow> 'a \<Rightarrow> bool) \<Rightarrow> 'a list \<Rightarrow> 'a list" where
  "heapify lt x = fold (\<lambda>i heap. siftup lt heap i) (rev [0..<length x div 2]) x"

section \<open>Frontier\<close>

record Frontier =
  sort_by :: py_sort
  fringe :: "(real \<times> Node) list"

text \<open>
  The comparison of two entries \<^verbatim>\<open>(value, node)\<close> of the fringe, as Python compares
  tuples: the first components that differ decide; equal nodes (same location) make the
  tuples equal; otherwise \<^verbatim>\<open>Node.__lt__\<close> compares the locations.
\<close>

definition tuple_lt :: "real \<times> Node \<Rightarrow> real \<times> Node \<Rightarrow> bool" where
  "tuple_lt a b =
     (if fst a \<noteq> fst b then fst a < fst b
      else if Node_eq (snd a) (ObjNode (snd b)) then False
      else Node_lt (snd a) (snd b))"

definition Frontier_init :: "Node \<Rightarrow> py_sort \<Rightarrow> Frontier" where
  "Frontier_init root_node sb =
     \<lparr>sort_by = sb, fringe = heapify tuple_lt [(Node_value root_node sb, root_node)]\<rparr>"

definition Frontier_len :: "Frontier \<Rightarrow> nat" where
  "Frontier_len fr = length (fringe fr)"

definition Frontier_contains :: "Frontier \<Rightarrow> Node \<Rightarrow> bool" where
  "Frontier_contains fr query = list_ex (\<lambda>(_, n). Node_eq n (ObjNode query)) (fringe fr)"

fun getitem_loop :: "(real \<times> Node) list \<Rightarrow> Node \<Rightarrow> py_error + real" where
  "getitem_loop [] query = Inl KeyError"
| "getitem_loop ((v, n) # rest) query =
     (if Node_eq n (ObjNode query) then Inr v else getitem_loop rest query)"

definition Frontier_getitem :: "Frontier \<Rightarrow> Node \<Rightarrow> py_error + real" where
  "Frontier_getitem fr query = getitem_loop (fringe fr) query"

text \<open>\<^verbatim>\<open>list.index(True)\<close>: the first position holding \<^verbatim>\<open>True\<close>, or \<^verbatim>\<open>ValueError\<close>.\<close>

fun index_True :: "bool list \<Rightarrow> py_error + nat" where
  "index_True [] = Inl ValueError"
| "index_True (b # bs) =
     (if b then Inr 0 else (case index_True bs of Inl e \<Rightarrow> Inl e | Inr i \<Rightarrow> Inr (Suc i)))"

definition Frontier_delitem :: "Frontier \<Rightarrow> Node \<Rightarrow> py_error + Frontier" where
  "Frontier_delitem fr query =
     (case index_True (map (\<lambda>(_, n). Node_eq n (ObjNode query)) (fringe fr)) of
        Inl e \<Rightarrow> Inl KeyError
      | Inr i \<Rightarrow>
          Inr (fr\<lparr>fringe := heapify tuple_lt (take i (fringe fr) @ drop (Suc i) (fringe fr))\<rparr>))"

definition is_empty :: "Frontier \<Rightarrow> bool" where
  "is_empty fr = (length (fringe fr) = 0)"

definition contains :: "Frontier \<Rightarrow> Node \<Rightarrow> bool" where
  "contains fr query = Frontier_contains fr query"

text \<open>\<^verbatim>\<open>add\<close> of a single node, and \<^verbatim>\<open>add\<close> of a list of nodes.\<close>

definition add :: "Frontier \<Rightarrow> Node \<Rightarrow> Frontier" where
  "add fr nodes = fr\<lparr>fringe := heappush tuple_lt (fringe fr) (Node_value nodes (sort_by fr), nodes)\<rparr>"

definition add_list :: "Frontier \<Rightarrow> Node list \<Rightarrow> Frontier" where
  "add_list fr nodes =
     fold (\<lambda>n f. f\<lparr>fringe := heappush tuple_lt (fringe f) (Node_value n (sort_by f), n)\<rparr>) nodes fr"

definition pop :: "Frontier \<Rightarrow> py_error + Node \<times> Frontier" where
  "pop fr =
     (if fringe fr \<noteq> [] then
        (case heappop tuple_lt (fringe fr) of
           Inl e \<Rightarrow> Inl e
         | Inr (item, heap') \<Rightarrow> Inr (snd item, fr\<lparr>fringe := heap'\<rparr>))
      else Inl (Exception ''Trying to pop from an empty frontier.''))"

section \<open>The heap invariant\<close>

declare siftdown_loop.simps [simp del] siftup_loop.simps [simp del]

definition heap_inv :: "('a \<Rightarrow> 'k::linorder) \<Rightarrow> 'a list \<Rightarrow> bool" where
  "heap_inv key h = (\<forall>i. 0 < i \<and> i < length h \<longrightarrow> key (h ! ((i - 1) div 2)) \<le> key (h ! i))"

lemma par_eq_iff: "0 < i \<Longrightarrow> ((i - 1) div 2 = p) = (i = 2 * p + 1 \<or> i = 2 * p + 2)"
  for i p :: nat
  by (cases i) (simp, arith)

lemma par_less: "0 < i \<Longrightarrow> (i - 1) div 2 < i"
  for i :: nat
  by (cases i) (simp, arith)

lemma length_siftdown_loop [simp]:
  "length (siftdown_loop lt h s pos x) = length h"
  by (induction lt h s pos x rule: siftdown_loop.induct)
     (subst siftdown_loop.simps, simp add: Let_def)

lemma mset_siftdown_loop:
  "pos < length h \<Longrightarrow> mset (siftdown_loop lt h s pos x) = mset (h[pos := x])"
proof (induction lt h s pos x rule: siftdown_loop.induct)
  case (1 lt heap startpos pos newitem)
  show ?case
  proof (cases "pos > startpos \<and> lt newitem (heap ! ((pos - 1) div 2))")
    case True
    define p where "p = (pos - 1) div 2"
    have pp: "p < pos" using True par_less[of pos] by (simp add: p_def)
    have "mset (siftdown_loop lt (heap[pos := heap ! p]) startpos p newitem)
            = mset (heap[pos := heap ! p, p := newitem])"
      using "1.IH"[of p "heap ! p"] True "1.prems" pp by (simp add: p_def)
    also have "\<dots> = mset (heap[pos := newitem])"
      using pp "1.prems" by (simp add: mset_update nth_list_update)
    finally show ?thesis
      using True by (subst siftdown_loop.simps) (simp add: Let_def p_def)
  next
    case False
    then show ?thesis by (subst siftdown_loop.simps) (auto simp: Let_def)
  qed
qed

text \<open>
  The positions of the subtree rooted at a position, and the heap property restricted to
  the entries whose parent is at position \<open>s\<close> or later: what \<^verbatim>\<open>heapify\<close> has established
  when it has sifted the positions from \<open>s\<close> on.
\<close>

inductive in_subtree :: "nat \<Rightarrow> nat \<Rightarrow> bool" for s :: nat where
  subtree_root: "in_subtree s s"
| subtree_left: "in_subtree s p \<Longrightarrow> in_subtree s (2 * p + 1)"
| subtree_right: "in_subtree s p \<Longrightarrow> in_subtree s (2 * p + 2)"

definition heap_from :: "('a \<Rightarrow> 'k::linorder) \<Rightarrow> nat \<Rightarrow> 'a list \<Rightarrow> bool" where
  "heap_from key s h =
     (\<forall>i. 0 < i \<and> i < length h \<and> s \<le> (i - 1) div 2
          \<longrightarrow> key (h ! ((i - 1) div 2)) \<le> key (h ! i))"

lemma heap_from_0: "heap_from key 0 h = heap_inv key h"
  by (simp add: heap_from_def heap_inv_def)

lemma in_subtree_ge: "in_subtree s p \<Longrightarrow> s \<le> p"
  by (induction rule: in_subtree.induct) auto

lemma in_subtree_parent:
  assumes "in_subtree s pos" and "s < pos"
  shows "in_subtree s ((pos - 1) div 2)"
  using assms by (cases rule: in_subtree.cases) auto

lemma in_subtree_0: "in_subtree 0 p"
proof (induction p rule: less_induct)
  case (less p)
  show ?case
  proof (cases "p = 0")
    case True
    then show ?thesis by (simp add: subtree_root)
  next
    case False
    then have p: "0 < p" by simp
    have q: "in_subtree 0 ((p - 1) div 2)" using less.IH[OF par_less[OF p]] .
    have "p = 2 * ((p - 1) div 2) + 1 \<or> p = 2 * ((p - 1) div 2) + 2"
      using par_eq_iff[OF p, of "(p - 1) div 2"] by simp
    then show ?thesis using subtree_left[OF q] subtree_right[OF q] by metis
  qed
qed

lemma siftdown_loop_from:
  fixes key :: "'a \<Rightarrow> 'k::linorder"
  shows "(\<forall>a b. lt a b \<longleftrightarrow> key a < key b) \<Longrightarrow> in_subtree s pos \<Longrightarrow> pos < length h \<Longrightarrow>
     (\<forall>i. 0 < i \<and> i < length h \<and> s \<le> (i - 1) div 2 \<and> i \<noteq> pos \<and> (i - 1) div 2 \<noteq> pos
          \<longrightarrow> key (h ! ((i - 1) div 2)) \<le> key (h ! i)) \<Longrightarrow>
     (\<forall>i. 0 < i \<and> i < length h \<and> (i - 1) div 2 = pos \<longrightarrow> key x \<le> key (h ! i)) \<Longrightarrow>
     (s < pos \<longrightarrow> (\<forall>i. 0 < i \<and> i < length h \<and> (i - 1) div 2 = pos
          \<longrightarrow> key (h ! ((pos - 1) div 2)) \<le> key (h ! i))) \<Longrightarrow>
     heap_from key s (siftdown_loop lt h s pos x)"
proof (induction lt h s pos x rule: siftdown_loop.induct)
  case (1 lt heap startpos pos newitem)
  have lt': "\<And>a b. lt a b \<longleftrightarrow> key a < key b" using "1.prems"(1) by blast
  define p where "p = (pos - 1) div 2"
  note sub = "1.prems"(2) and A = "1.prems"(4) and B = "1.prems"(5) and C = "1.prems"(6)
  have len: "pos < length heap" by fact
  have ge: "startpos \<le> pos" using sub by (rule in_subtree_ge)
  show ?case
  proof (cases "pos > startpos")
    case False
    then have pos0: "pos = startpos" using ge by simp
    have "heap_from key startpos (heap[pos := newitem])"
      unfolding heap_from_def
    proof (intro allI impI)
      fix i assume i: "0 < i \<and> i < length (heap[pos := newitem]) \<and> startpos \<le> (i - 1) div 2"
      then have i': "0 < i" "i < length heap" "startpos \<le> (i - 1) div 2" by simp_all
      have ipos: "i \<noteq> pos" using par_less[OF i'(1)] i'(3) pos0 by simp
      show "key (heap[pos := newitem] ! ((i - 1) div 2)) \<le> key (heap[pos := newitem] ! i)"
      proof (cases "(i - 1) div 2 = pos")
        case True
        then show ?thesis using B i' len ipos by (simp add: nth_list_update)
      next
        case False
        then show ?thesis using A i' len ipos by (simp add: nth_list_update)
      qed
    qed
    then show ?thesis using False by (subst siftdown_loop.simps) simp
  next
    case True
    then have pos_pos: "0 < pos" by simp
    have pp: "p < pos" using pos_pos par_less[of pos] by (simp add: p_def)
    have psub: "in_subtree startpos p" unfolding p_def using sub True by (rule in_subtree_parent)
    have pge: "startpos \<le> p" using psub by (rule in_subtree_ge)
    show ?thesis
    proof (cases "lt newitem (heap ! p)")
      case False
      then have le: "key (heap ! p) \<le> key newitem" using lt' by (simp add: not_less)
      have "heap_from key startpos (heap[pos := newitem])"
        unfolding heap_from_def
      proof (intro allI impI)
        fix i assume i: "0 < i \<and> i < length (heap[pos := newitem]) \<and> startpos \<le> (i - 1) div 2"
        then have i': "0 < i" "i < length heap" "startpos \<le> (i - 1) div 2" by simp_all
        show "key (heap[pos := newitem] ! ((i - 1) div 2)) \<le> key (heap[pos := newitem] ! i)"
        proof (cases "i = pos")
          case True
          then show ?thesis using le len pp by (simp add: nth_list_update p_def)
        next
          case ipos: False
          show ?thesis
          proof (cases "(i - 1) div 2 = pos")
            case True
            then show ?thesis using B i' len ipos by (simp add: nth_list_update)
          next
            case False
            then show ?thesis using A i' len ipos by (simp add: nth_list_update)
          qed
        qed
      qed
      then show ?thesis using True False
        by (subst siftdown_loop.simps) (simp add: Let_def p_def)
    next
      case ltp: True
      then have less: "key newitem < key (heap ! p)" using lt' by simp
      define h' where "h' = heap[pos := heap ! p]"
      have plen: "p < length h'" using pp len by (simp add: h'_def)
      have h'_pos: "h' ! pos = heap ! p" using len by (simp add: h'_def)
      have h'_other: "\<And>j. j \<noteq> pos \<Longrightarrow> h' ! j = heap ! j" by (simp add: h'_def)
      have hp_le: "\<And>i. 0 < i \<Longrightarrow> i < length heap \<Longrightarrow> i \<noteq> pos \<Longrightarrow> (i - 1) div 2 = p
                    \<Longrightarrow> key (heap ! p) \<le> key (heap ! i)"
        using A pp pge by auto
      have A': "\<forall>i. 0 < i \<and> i < length h' \<and> startpos \<le> (i - 1) div 2 \<and> i \<noteq> p
                  \<and> (i - 1) div 2 \<noteq> p
                  \<longrightarrow> key (h' ! ((i - 1) div 2)) \<le> key (h' ! i)"
      proof (intro allI impI)
        fix i assume i: "0 < i \<and> i < length h' \<and> startpos \<le> (i - 1) div 2 \<and> i \<noteq> p
            \<and> (i - 1) div 2 \<noteq> p"
        then have i': "0 < i" "i < length heap" "startpos \<le> (i - 1) div 2" "i \<noteq> p"
          "(i - 1) div 2 \<noteq> p"
          by (simp_all add: h'_def)
        have ipos: "i \<noteq> pos" using i' by (auto simp: p_def)
        show "key (h' ! ((i - 1) div 2)) \<le> key (h' ! i)"
        proof (cases "(i - 1) div 2 = pos")
          case True
          then show ?thesis using C \<open>startpos < pos\<close> i' ipos h'_pos h'_other by (simp add: p_def)
        next
          case False
          then show ?thesis using A i' ipos h'_other by simp
        qed
      qed
      have B': "\<forall>i. 0 < i \<and> i < length h' \<and> (i - 1) div 2 = p \<longrightarrow> key newitem \<le> key (h' ! i)"
      proof (intro allI impI)
        fix i assume i: "0 < i \<and> i < length h' \<and> (i - 1) div 2 = p"
        then have i': "0 < i" "i < length heap" "(i - 1) div 2 = p" by (simp_all add: h'_def)
        show "key newitem \<le> key (h' ! i)"
        proof (cases "i = pos")
          case True
          then show ?thesis using less h'_pos by simp
        next
          case False
          then show ?thesis using hp_le[OF i'(1,2) False i'(3)] less h'_other by simp
        qed
      qed
      have C': "startpos < p \<longrightarrow> (\<forall>i. 0 < i \<and> i < length h' \<and> (i - 1) div 2 = p
                  \<longrightarrow> key (h' ! ((p - 1) div 2)) \<le> key (h' ! i))"
      proof (intro allI impI)
        fix i assume p0: "startpos < p" and i: "0 < i \<and> i < length h' \<and> (i - 1) div 2 = p"
        then have i': "0 < i" "i < length heap" "(i - 1) div 2 = p" by (simp_all add: h'_def)
        have p_pos: "0 < p" using p0 by simp
        have ppp: "(p - 1) div 2 < p" using par_less[OF p_pos] .
        have "startpos \<le> (p - 1) div 2"
          using in_subtree_parent[OF psub p0] by (rule in_subtree_ge)
        then have g: "key (heap ! ((p - 1) div 2)) \<le> key (heap ! p)"
          using A p_pos pp ppp len by auto
        have "h' ! ((p - 1) div 2) = heap ! ((p - 1) div 2)"
          using ppp pp h'_other by simp
        moreover have "key (heap ! p) \<le> key (h' ! i)"
        proof (cases "i = pos")
          case True
          then show ?thesis using h'_pos by simp
        next
          case False
          then show ?thesis using hp_le[OF i'(1,2) False i'(3)] h'_other by simp
        qed
        ultimately show "key (h' ! ((p - 1) div 2)) \<le> key (h' ! i)" using g by simp
      qed
      have "heap_from key startpos (siftdown_loop lt (heap[pos := heap ! p]) startpos p newitem)"
        by (rule "1.IH"[OF True p_def refl ltp "1.prems"(1) psub plen[unfolded h'_def]
              A'[unfolded h'_def] B'[unfolded h'_def] C'[unfolded h'_def]])
      then show ?thesis using True ltp
        by (subst siftdown_loop.simps) (simp add: Let_def p_def)
    qed
  qed
qed

lemma siftup_loop_shape:
  "pos < length h \<Longrightarrow> endpos = length h \<Longrightarrow> siftup_loop lt h pos endpos = (h', pos') \<Longrightarrow>
   length h' = length h \<and> pos' < length h \<and> length h \<le> 2 * pos' + 1 \<and> pos \<le> pos'"
proof (induction lt h pos endpos arbitrary: h' pos' rule: siftup_loop.induct)
  case (1 lt heap pos endpos)
  show ?case
  proof (cases "2 * pos + 1 < endpos")
    case False
    then have "siftup_loop lt heap pos endpos = (heap, pos)"
      by (subst siftup_loop.simps) (simp add: Let_def)
    then show ?thesis using "1.prems" False by simp
  next
    case True
    define c where "c = (if 2 * pos + 1 + 1 < endpos \<and>
        \<not> lt (heap ! (2 * pos + 1)) (heap ! (2 * pos + 1 + 1)) then 2 * pos + 1 + 1 else 2 * pos + 1)"
    have c: "c < length heap" "pos < c" using True "1.prems"(2) by (auto simp: c_def)
    have eq: "siftup_loop lt heap pos endpos = siftup_loop lt (heap[pos := heap ! c]) c endpos"
      using True by (subst siftup_loop.simps) (simp add: Let_def c_def)
    have "length h' = length (heap[pos := heap ! c]) \<and> pos' < length (heap[pos := heap ! c])
          \<and> length (heap[pos := heap ! c]) \<le> 2 * pos' + 1 \<and> c \<le> pos'"
      by (rule "1.IH"[OF refl True refl c_def]) (use c "1.prems" eq in simp_all)
    then show ?thesis using c by simp
  qed
qed

lemma siftup_loop_mset:
  "pos < length h \<Longrightarrow> endpos = length h \<Longrightarrow> siftup_loop lt h pos endpos = (h', pos') \<Longrightarrow>
   mset (h'[pos' := x]) = mset (h[pos := x])"
proof (induction lt h pos endpos arbitrary: h' pos' rule: siftup_loop.induct)
  case (1 lt heap pos endpos)
  show ?case
  proof (cases "2 * pos + 1 < endpos")
    case False
    then have "siftup_loop lt heap pos endpos = (heap, pos)"
      by (subst siftup_loop.simps) (simp add: Let_def)
    then show ?thesis using "1.prems" by simp
  next
    case True
    define c where "c = (if 2 * pos + 1 + 1 < endpos \<and>
        \<not> lt (heap ! (2 * pos + 1)) (heap ! (2 * pos + 1 + 1)) then 2 * pos + 1 + 1 else 2 * pos + 1)"
    have c: "c < length heap" "pos < c" using True "1.prems"(2) by (auto simp: c_def)
    have eq: "siftup_loop lt heap pos endpos = siftup_loop lt (heap[pos := heap ! c]) c endpos"
      using True by (subst siftup_loop.simps) (simp add: Let_def c_def)
    have "mset (h'[pos' := x]) = mset (heap[pos := heap ! c, c := x])"
      by (rule "1.IH"[OF refl True refl c_def]) (use c "1.prems" eq in simp_all)
    also have "\<dots> = mset (heap[pos := x])"
      using c "1.prems"(1) by (simp add: mset_update nth_list_update)
    finally show ?thesis .
  qed
qed

lemma siftup_loop_subtree:
  "in_subtree s pos \<Longrightarrow> siftup_loop lt h pos endpos = (h', pos') \<Longrightarrow> in_subtree s pos'"
proof (induction lt h pos endpos arbitrary: h' pos' rule: siftup_loop.induct)
  case (1 lt heap pos endpos)
  show ?case
  proof (cases "2 * pos + 1 < endpos")
    case False
    then have "siftup_loop lt heap pos endpos = (heap, pos)"
      by (subst siftup_loop.simps) (simp add: Let_def)
    then show ?thesis using "1.prems" by simp
  next
    case True
    define c where "c = (if 2 * pos + 1 + 1 < endpos \<and>
        \<not> lt (heap ! (2 * pos + 1)) (heap ! (2 * pos + 1 + 1)) then 2 * pos + 1 + 1 else 2 * pos + 1)"
    have csub: "in_subtree s c"
      using subtree_left[OF "1.prems"(1)] subtree_right[OF "1.prems"(1)] by (simp add: c_def)
    have eq: "siftup_loop lt heap pos endpos = siftup_loop lt (heap[pos := heap ! c]) c endpos"
      using True by (subst siftup_loop.simps) (simp add: Let_def c_def)
    have eq': "siftup_loop lt (heap[pos := heap ! c]) c endpos = (h', pos')"
      using eq "1.prems"(2) by simp
    show ?thesis by (rule "1.IH"[OF refl True refl c_def csub eq'])
  qed
qed

lemma siftup_loop_from:
  fixes key :: "'a \<Rightarrow> 'k::linorder"
  shows "(\<forall>a b. lt a b \<longleftrightarrow> key a < key b) \<Longrightarrow> pos < length h \<Longrightarrow> endpos = length h \<Longrightarrow>
     s \<le> pos \<Longrightarrow>
     (\<forall>i. 0 < i \<and> i < length h \<and> s \<le> (i - 1) div 2 \<and> (i - 1) div 2 \<noteq> pos
          \<longrightarrow> key (h ! ((i - 1) div 2)) \<le> key (h ! i)) \<Longrightarrow>
     (s < pos \<longrightarrow> (\<forall>i. 0 < i \<and> i < length h \<and> (i - 1) div 2 = pos
          \<longrightarrow> key (h ! ((pos - 1) div 2)) \<le> key (h ! i))) \<Longrightarrow>
     siftup_loop lt h pos endpos = (h', pos') \<Longrightarrow>
     heap_from key s h'"
proof (induction lt h pos endpos arbitrary: h' pos' rule: siftup_loop.induct)
  case (1 lt heap pos endpos)
  have lt': "\<And>a b. lt a b \<longleftrightarrow> key a < key b" using "1.prems"(1) by blast
  note len = "1.prems"(2) and e = "1.prems"(3) and sp = "1.prems"(4) and A = "1.prems"(5)
    and B = "1.prems"(6)
  show ?case
  proof (cases "2 * pos + 1 < endpos")
    case False
    then have "siftup_loop lt heap pos endpos = (heap, pos)"
      by (subst siftup_loop.simps) (simp add: Let_def)
    then have h': "h' = heap" using "1.prems"(7) by simp
    have "heap_from key s heap"
      unfolding heap_from_def
    proof (intro allI impI)
      fix i assume i: "0 < i \<and> i < length heap \<and> s \<le> (i - 1) div 2"
      then have "(i - 1) div 2 \<noteq> pos" using False e by (auto simp: par_eq_iff)
      then show "key (heap ! ((i - 1) div 2)) \<le> key (heap ! i)" using A i by simp
    qed
    then show ?thesis using h' by simp
  next
    case True
    define c where "c = (if 2 * pos + 1 + 1 < endpos \<and>
        \<not> lt (heap ! (2 * pos + 1)) (heap ! (2 * pos + 1 + 1)) then 2 * pos + 1 + 1 else 2 * pos + 1)"
    have c: "c < length heap" "pos < c" "(c - 1) div 2 = pos" "0 < c"
      using True e by (auto simp: c_def)
    have eq: "siftup_loop lt heap pos endpos = siftup_loop lt (heap[pos := heap ! c]) c endpos"
      using True by (subst siftup_loop.simps) (simp add: Let_def c_def)
    have cmin: "\<And>i. 0 < i \<Longrightarrow> i < length heap \<Longrightarrow> (i - 1) div 2 = pos
                  \<Longrightarrow> key (heap ! c) \<le> key (heap ! i)"
    proof -
      fix i assume i: "0 < i" "i < length heap" "(i - 1) div 2 = pos"
      then have "i = 2 * pos + 1 \<or> i = 2 * pos + 2" using par_eq_iff[of i pos] by blast
      then show "key (heap ! c) \<le> key (heap ! i)"
        using i e lt' by (auto simp: c_def not_less)
    qed
    define h2 where "h2 = heap[pos := heap ! c]"
    have h2_pos: "h2 ! pos = heap ! c" using len by (simp add: h2_def)
    have h2_other: "\<And>j. j \<noteq> pos \<Longrightarrow> h2 ! j = heap ! j" by (simp add: h2_def)
    have A': "\<forall>i. 0 < i \<and> i < length h2 \<and> s \<le> (i - 1) div 2 \<and> (i - 1) div 2 \<noteq> c
                \<longrightarrow> key (h2 ! ((i - 1) div 2)) \<le> key (h2 ! i)"
    proof (intro allI impI)
      fix i assume "0 < i \<and> i < length h2 \<and> s \<le> (i - 1) div 2 \<and> (i - 1) div 2 \<noteq> c"
      then have i: "0 < i" "i < length heap" "s \<le> (i - 1) div 2" "(i - 1) div 2 \<noteq> c"
        by (simp_all add: h2_def)
      have ne: "(i - 1) div 2 \<noteq> i" using par_less[of i] i by simp
      show "key (h2 ! ((i - 1) div 2)) \<le> key (h2 ! i)"
      proof (cases "i = pos")
        case True
        then have "s < pos" using i par_less[of i] by simp
        then have "key (heap ! ((pos - 1) div 2)) \<le> key (heap ! c)" using B c by blast
        then show ?thesis using True ne h2_pos h2_other by simp
      next
        case ipos: False
        show ?thesis
        proof (cases "(i - 1) div 2 = pos")
          case True
          then show ?thesis using cmin[OF i(1,2) True] ipos h2_pos h2_other by simp
        next
          case False
          then show ?thesis using A i ipos h2_other by simp
        qed
      qed
    qed
    have B': "s < c \<longrightarrow> (\<forall>i. 0 < i \<and> i < length h2 \<and> (i - 1) div 2 = c
                \<longrightarrow> key (h2 ! ((c - 1) div 2)) \<le> key (h2 ! i))"
    proof (intro allI impI)
      fix i assume "s < c" and "0 < i \<and> i < length h2 \<and> (i - 1) div 2 = c"
      then have i: "0 < i" "i < length heap" "(i - 1) div 2 = c" by (simp_all add: h2_def)
      have "c < i" using par_less[of i] i by simp
      then have ipos: "i \<noteq> pos" using c by simp
      have "s \<le> (i - 1) div 2" using i sp c by simp
      then have "key (heap ! c) \<le> key (heap ! i)" using A i c by auto
      then show "key (h2 ! ((c - 1) div 2)) \<le> key (h2 ! i)"
        using c ipos h2_pos h2_other by simp
    qed
    have clen: "c < length (heap[pos := heap ! c])" using c by simp
    have elen: "endpos = length (heap[pos := heap ! c])" using e by simp
    have sc: "s \<le> c" using sp c by simp
    have eq': "siftup_loop lt (heap[pos := heap ! c]) c endpos = (h', pos')"
      using eq "1.prems"(7) by simp
    show ?thesis
      by (rule "1.IH"[OF refl True refl c_def "1.prems"(1) clen elen sc
            A'[unfolded h2_def] B'[unfolded h2_def] eq'])
  qed
qed

lemma length_siftup_loop [simp]: "length (fst (siftup_loop lt h pos e)) = length h"
proof (induction lt h pos e rule: siftup_loop.induct)
  case (1 lt heap pos endpos)
  show ?case
    by (subst siftup_loop.simps) (use 1 in \<open>auto simp: Let_def\<close>)
qed

lemma length_siftup [simp]: "length (siftup lt h pos) = length h"
proof -
  obtain hl pl where sl: "siftup_loop lt h pos (length h) = (hl, pl)"
    by (cases "siftup_loop lt h pos (length h)")
  have "length hl = length h" using length_siftup_loop[of lt h pos "length h"] sl by simp
  then show ?thesis using sl by (simp add: siftup_def siftdown_def Let_def)
qed

lemma mset_siftup: "pos < length h \<Longrightarrow> mset (siftup lt h pos) = mset h"
proof -
  assume len: "pos < length h"
  obtain hl pl where sl: "siftup_loop lt h pos (length h) = (hl, pl)"
    by (cases "siftup_loop lt h pos (length h)")
  from siftup_loop_shape[OF len refl sl] have pl: "pl < length (hl[pl := h ! pos])" by simp
  have "mset (siftup lt h pos) = mset (siftdown_loop lt (hl[pl := h ! pos]) pos pl (h ! pos))"
    using sl pl by (simp add: siftup_def siftdown_def Let_def)
  also have "\<dots> = mset (hl[pl := h ! pos, pl := h ! pos])" by (rule mset_siftdown_loop[OF pl])
  also have "\<dots> = mset (h[pos := h ! pos])" using siftup_loop_mset[OF len refl sl] by simp
  finally show ?thesis by simp
qed

lemma siftup_from:
  fixes key :: "'a \<Rightarrow> 'k::linorder"
  assumes lt: "\<forall>a b. lt a b \<longleftrightarrow> key a < key b"
    and len: "s < length h"
    and inv: "heap_from key (Suc s) h"
  shows "heap_from key s (siftup lt h s)"
proof -
  obtain hl pl where sl: "siftup_loop lt h s (length h) = (hl, pl)"
    by (cases "siftup_loop lt h s (length h)")
  from siftup_loop_shape[OF len refl sl]
  have shape: "length hl = length h" "pl < length h" "length h \<le> 2 * pl + 1" by simp_all
  have A: "\<forall>i. 0 < i \<and> i < length h \<and> s \<le> (i - 1) div 2 \<and> (i - 1) div 2 \<noteq> s
             \<longrightarrow> key (h ! ((i - 1) div 2)) \<le> key (h ! i)"
    using inv unfolding heap_from_def by auto
  have hinv: "heap_from key s hl"
    by (rule siftup_loop_from[OF lt len refl order_refl A _ sl]) simp
  have psub: "in_subtree s pl" using subtree_root sl by (rule siftup_loop_subtree)
  define g where "g = hl[pl := h ! s]"
  have glen: "pl < length g" using shape by (simp add: g_def)
  have gA: "\<forall>i. 0 < i \<and> i < length g \<and> s \<le> (i - 1) div 2 \<and> i \<noteq> pl \<and> (i - 1) div 2 \<noteq> pl
             \<longrightarrow> key (g ! ((i - 1) div 2)) \<le> key (g ! i)"
    using hinv unfolding heap_from_def g_def by (simp add: nth_list_update)
  have none: "\<And>i. 0 < i \<Longrightarrow> i < length g \<Longrightarrow> (i - 1) div 2 \<noteq> pl"
  proof -
    fix i :: nat assume i: "0 < i" "i < length g"
    show "(i - 1) div 2 \<noteq> pl"
    proof
      assume "(i - 1) div 2 = pl"
      then have "i = 2 * pl + 1 \<or> i = 2 * pl + 2" using par_eq_iff[OF i(1), of pl] by blast
      then show False using i(2) shape by (auto simp: g_def)
    qed
  qed
  have "heap_from key s (siftdown_loop lt g s pl (h ! s))"
    by (rule siftdown_loop_from[OF lt psub glen gA]) (use none in auto)
  moreover have "siftup lt h s = siftdown_loop lt g s pl (h ! s)"
    using sl glen by (simp add: siftup_def siftdown_def g_def Let_def)
  ultimately show ?thesis by simp
qed

lemma heap_inv_butlast: "heap_inv key h \<Longrightarrow> heap_inv key (butlast h)"
  unfolding heap_inv_def
proof (intro allI impI)
  fix i assume h: "\<forall>i. 0 < i \<and> i < length h \<longrightarrow> key (h ! ((i - 1) div 2)) \<le> key (h ! i)"
    and i: "0 < i \<and> i < length (butlast h)"
  then have "(i - 1) div 2 < length (butlast h)" using par_less[of i] by simp
  then show "key (butlast h ! ((i - 1) div 2)) \<le> key (butlast h ! i)"
    using h i by (auto simp add: nth_butlast)
qed

lemma heap_inv_root_le:
  fixes key :: "'a \<Rightarrow> 'k::linorder"
  assumes "heap_inv key h"
  shows "i < length h \<Longrightarrow> key (h ! 0) \<le> key (h ! i)"
proof (induction i rule: less_induct)
  case (less i)
  show ?case
  proof (cases "i = 0")
    case True
    then show ?thesis by simp
  next
    case False
    then have i: "0 < i" by simp
    have p: "(i - 1) div 2 < i" using par_less[OF i] .
    have "key (h ! 0) \<le> key (h ! ((i - 1) div 2))" using less.IH[OF p] p less.prems by simp
    moreover have "key (h ! ((i - 1) div 2)) \<le> key (h ! i)"
      using assms i less.prems unfolding heap_inv_def by blast
    ultimately show ?thesis by simp
  qed
qed

lemma heap_inv_hd_le:
  fixes key :: "'a \<Rightarrow> 'k::linorder"
  assumes "heap_inv key h" and "y \<in> set h"
  shows "key (h ! 0) \<le> key y"
  using assms heap_inv_root_le[OF assms(1)] by (auto simp: in_set_conv_nth)

lemma length_heappush [simp]: "length (heappush lt h item) = Suc (length h)"
  by (simp add: heappush_def siftdown_def)

lemma mset_heappush: "mset (heappush lt h item) = add_mset item (mset h)"
  by (simp add: heappush_def siftdown_def mset_siftdown_loop)

lemma heap_inv_heappush:
  fixes key :: "'a \<Rightarrow> 'k::linorder"
  assumes lt: "\<forall>a b. lt a b \<longleftrightarrow> key a < key b" and inv: "heap_inv key h"
  shows "heap_inv key (heappush lt h item)"
proof -
  define h1 where "h1 = h @ [item]"
  define pos where "pos = length h"
  have len: "pos < length h1" by (simp add: h1_def pos_def)
  have A: "\<forall>i. 0 < i \<and> i < length h1 \<and> 0 \<le> (i - 1) div 2 \<and> i \<noteq> pos \<and> (i - 1) div 2 \<noteq> pos
             \<longrightarrow> key (h1 ! ((i - 1) div 2)) \<le> key (h1 ! i)"
  proof (intro allI impI)
    fix i assume "0 < i \<and> i < length h1 \<and> 0 \<le> (i - 1) div 2 \<and> i \<noteq> pos \<and> (i - 1) div 2 \<noteq> pos"
    then have i: "0 < i" "i < length h" by (simp_all add: h1_def pos_def)
    then have p: "(i - 1) div 2 < length h" using par_less[of i] by simp
    show "key (h1 ! ((i - 1) div 2)) \<le> key (h1 ! i)"
      using inv i p unfolding heap_inv_def h1_def by (simp add: nth_append)
  qed
  have none: "\<And>i. 0 < i \<Longrightarrow> i < length h1 \<Longrightarrow> (i - 1) div 2 \<noteq> pos"
  proof -
    fix i :: nat assume "0 < i" "i < length h1"
    then show "(i - 1) div 2 \<noteq> pos" using par_less[of i] by (simp add: h1_def pos_def)
  qed
  have "heap_from key 0 (siftdown_loop lt h1 0 pos item)"
    by (rule siftdown_loop_from[OF lt in_subtree_0 len A]) (use none in auto)
  then show ?thesis
    by (simp add: heappush_def siftdown_def h1_def pos_def heap_from_0)
qed

lemma heappop_Nil [simp]: "heappop lt [] = Inl IndexError"
  by (simp add: heappop_def)

lemma heappop_mset:
  assumes "heappop lt h = Inr (x, h')"
  shows "mset h = add_mset x (mset h')"
proof -
  have ne: "h \<noteq> []" using assms by (auto simp: heappop_def)
  define b where "b = butlast h"
  have h: "h = b @ [last h]" using ne by (simp add: b_def)
  have "mset h = mset (b @ [last h])" using h by simp
  then have mh: "mset h = add_mset (last h) (mset b)" by simp
  show ?thesis
  proof (cases "b = []")
    case True
    then show ?thesis using assms ne mh by (auto simp: heappop_def Let_def b_def)
  next
    case False
    then have x: "x = b ! 0" and h': "h' = siftup lt (b[0 := last h]) 0"
      using assms ne by (auto simp: heappop_def Let_def b_def)
    have "mset h' = mset (b[0 := last h])" unfolding h' using False by (intro mset_siftup) simp
    also have "\<dots> = add_mset (last h) (mset b - {#b ! 0#})"
      using False by (simp add: mset_update)
    finally have mg: "mset h' = add_mset (last h) (mset b - {#b ! 0#})" .
    have "add_mset (b ! 0) (mset b - {#b ! 0#}) = mset b"
      using False by (simp add: insert_DiffM)
    then have "add_mset (b ! 0) (mset h') = add_mset (last h) (mset b)"
      using mg by (simp add: add_mset_commute)
    then show ?thesis using mh x by simp
  qed
qed

lemma heappop_heap:
  fixes key :: "'a \<Rightarrow> 'k::linorder"
  assumes lt: "\<forall>a b. lt a b \<longleftrightarrow> key a < key b" and inv: "heap_inv key h" and ne: "h \<noteq> []"
  shows "\<exists>h'. heappop lt h = Inr (h ! 0, h') \<and> heap_inv key h'
            \<and> mset h = add_mset (h ! 0) (mset h') \<and> (\<forall>y \<in> set h. key (h ! 0) \<le> key y)"
proof -
  have min: "\<forall>y \<in> set h. key (h ! 0) \<le> key y" using heap_inv_hd_le[OF inv] by blast
  define b where "b = butlast h"
  have h: "h = b @ [last h]" using ne by (simp add: b_def)
  show ?thesis
  proof (cases "b = []")
    case True
    then have "h = [last h]" using h by simp
    then have "h ! 0 = last h" using nth_Cons_0[of "last h" "[]"] by simp
    then show ?thesis using True ne min h
      by (simp add: heappop_def b_def heap_inv_def Let_def)
  next
    case False
    define g where "g = b[0 := last h]"
    have gne: "g \<noteq> []" using False by (simp add: g_def)
    have binv: "heap_inv key b" using heap_inv_butlast[OF inv] by (simp add: b_def)
    have A: "\<forall>i. 0 < i \<and> i < length g \<and> (i - 1) div 2 \<noteq> 0
               \<longrightarrow> key (g ! ((i - 1) div 2)) \<le> key (g ! i)"
      using binv unfolding heap_inv_def g_def by (simp add: nth_list_update)
    have g1: "heap_from key (Suc 0) g" using A by (simp add: heap_from_def)
    have glen: "0 < length g" using gne by simp
    have r: "heap_inv key (siftup lt g 0)" "mset (siftup lt g 0) = mset g"
      using siftup_from[OF lt glen g1] mset_siftup[OF glen, of lt] by (simp_all add: heap_from_0)
    have "0 < length (butlast h)" using False by (simp add: b_def del: length_butlast)
    then have b0: "b ! 0 = h ! 0" unfolding b_def by (rule nth_butlast)
    have "mset h = mset (b @ [last h])" using h by simp
    then have mh: "mset h = add_mset (last h) (mset b)" by simp
    have mg: "mset g = add_mset (last h) (mset b - {#b ! 0#})"
      using False by (simp add: g_def mset_update)
    have "add_mset (b ! 0) (mset b - {#b ! 0#}) = mset b"
      using False by (simp add: insert_DiffM)
    then have "add_mset (b ! 0) (mset g) = add_mset (last h) (mset b)"
      using mg by (simp add: add_mset_commute)
    then have "mset h = add_mset (h ! 0) (mset g)"
      using mh b0 by simp
    moreover have "heappop lt h = Inr (h ! 0, siftup lt g 0)"
      using ne False b0 by (simp add: heappop_def Let_def b_def g_def)
    ultimately show ?thesis using r min by simp
  qed
qed

lemma fold_siftup_heap:
  fixes key :: "'a \<Rightarrow> 'k::linorder"
  assumes lt: "\<forall>a b. lt a b \<longleftrightarrow> key a < key b"
  shows "k \<le> length h \<Longrightarrow> heap_from key k h \<Longrightarrow>
         heap_inv key (fold (\<lambda>i heap. siftup lt heap i) (rev [0..<k]) h)"
proof (induction k arbitrary: h)
  case 0
  then show ?case by (simp add: heap_from_0)
next
  case (Suc k)
  have len: "k < length h" using Suc.prems(1) by simp
  have "heap_from key k (siftup lt h k)" using lt len Suc.prems(2) by (rule siftup_from)
  moreover have "k \<le> length (siftup lt h k)" using len by simp
  ultimately have "heap_inv key (fold (\<lambda>i heap. siftup lt heap i) (rev [0..<k]) (siftup lt h k))"
    using Suc.IH by blast
  then show ?case by simp
qed

lemma heap_from_half: "heap_from key (length h div 2) h"
  unfolding heap_from_def
proof (intro allI impI)
  fix i assume i: "0 < i \<and> i < length h \<and> length h div 2 \<le> (i - 1) div 2"
  then have False by (cases i) (simp, arith)
  then show "key (h ! ((i - 1) div 2)) \<le> key (h ! i)" ..
qed

lemma heap_inv_heapify:
  fixes key :: "'a \<Rightarrow> 'k::linorder"
  assumes lt: "\<forall>a b. lt a b \<longleftrightarrow> key a < key b"
  shows "heap_inv key (heapify lt h)"
  unfolding heapify_def
  by (rule fold_siftup_heap[OF lt _ heap_from_half]) simp

lemma mset_fold_siftup:
  "k \<le> length h \<Longrightarrow> mset (fold (\<lambda>i heap. siftup lt heap i) (rev [0..<k]) h) = mset h"
proof (induction k arbitrary: h)
  case 0
  then show ?case by simp
next
  case (Suc k)
  have len: "k < length h" using Suc.prems by simp
  have "mset (fold (\<lambda>i heap. siftup lt heap i) (rev [0..<k]) (siftup lt h k))
          = mset (siftup lt h k)"
    by (rule Suc.IH) (use len in simp)
  then show ?case using mset_siftup[OF len, of lt] by simp
qed

lemma mset_heapify: "mset (heapify lt h) = mset h"
  unfolding heapify_def by (rule mset_fold_siftup) simp

section \<open>Frontier: order of the pops\<close>

text \<open>
  The key a fringe entry is ordered by: its stored value, then the location of its node.
  A frontier is well formed when its fringe is a heap for that key and every stored value
  is the value of its node for the frontier's metric; \<^verbatim>\<open>__init__\<close> builds a well-formed
  frontier, and \<^verbatim>\<open>add\<close>, \<^verbatim>\<open>pop\<close> and \<^verbatim>\<open>__delitem__\<close> keep frontiers well formed.
\<close>

definition entry_key :: "real \<times> Node \<Rightarrow> real \<times> location" where
  "entry_key a = (fst a, loc (snd a))"

definition frontier_ok :: "Frontier \<Rightarrow> bool" where
  "frontier_ok fr =
     (heap_inv entry_key (fringe fr) \<and>
      (\<forall>(v, n) \<in> set (fringe fr). v = Node_value n (sort_by fr)))"

lemma length_heappop:
  "heappop lt h = Inr (x, h') \<Longrightarrow> length h' < length h"
  by (auto simp: heappop_def Let_def split: if_splits)

lemma pop_length:
  "pop fr = Inr (n, fr') \<Longrightarrow> length (fringe fr') < length (fringe fr)"
  by (auto simp: pop_def split: if_splits sum.splits dest: length_heappop)

text \<open>Successive pops until the frontier is empty, in the order the nodes come out.\<close>

function pop_all :: "Frontier \<Rightarrow> Node list" where
  "pop_all fr =
     (if is_empty fr then []
      else (case pop fr of Inl e \<Rightarrow> [] | Inr (n, fr') \<Rightarrow> n # pop_all fr'))"
  by pat_completeness auto
termination
  by (relation "measure (\<lambda>fr. length (fringe fr))") (auto dest: pop_length)

declare pop_all.simps [simp del]

lemma mset_add_set:
  assumes "mset xs = add_mset a (mset ys)"
  shows "set xs = insert a (set ys)"
proof -
  have "set_mset (mset xs) = set_mset (add_mset a (mset ys))" using assms by simp
  then show ?thesis by simp
qed

lemma mset_add_map:
  assumes "mset xs = add_mset a (mset ys)"
  shows "mset (map f xs) = add_mset (f a) (mset (map f ys))"
proof -
  have "image_mset f (mset xs) = image_mset f (add_mset a (mset ys))" using assms by simp
  then show ?thesis by simp
qed

lemma tuple_lt_key: "tuple_lt a b \<longleftrightarrow> entry_key a < entry_key b"
  by (cases a; cases b) (auto simp: tuple_lt_def entry_key_def Node_lt_def less_prod_def)

lemma heapify_single [simp]: "heapify lt [x] = [x]"
  by (simp add: heapify_def)

lemma frontier_ok_init: "frontier_ok (Frontier_init rt sb)"
  by (simp add: frontier_ok_def Frontier_init_def heap_inv_def)

lemma sort_by_add [simp]: "sort_by (add fr n) = sort_by fr"
  by (simp add: add_def)

lemma fringe_add_mset:
  "mset (fringe (add fr n)) = add_mset (Node_value n (sort_by fr), n) (mset (fringe fr))"
  by (simp add: add_def mset_heappush)

lemma frontier_ok_add: "frontier_ok fr \<Longrightarrow> frontier_ok (add fr n)"
proof -
  assume ok: "frontier_ok fr"
  have lt: "\<forall>a b. tuple_lt a b \<longleftrightarrow> entry_key a < entry_key b" using tuple_lt_key by blast
  have "heap_inv entry_key (fringe (add fr n))"
    using heap_inv_heappush[OF lt] ok by (simp add: add_def frontier_ok_def)
  moreover have "set (fringe (add fr n)) = insert (Node_value n (sort_by fr), n) (set (fringe fr))"
    using fringe_add_mset[of fr n] by (rule mset_add_set)
  ultimately show ?thesis using ok by (auto simp: frontier_ok_def)
qed

lemma add_list_fold: "add_list fr ns = fold (\<lambda>n f. add f n) ns fr"
  by (simp add: add_list_def add_def)

lemma add_list_Nil [simp]: "add_list fr [] = fr"
  by (simp add: add_list_def)

lemma add_list_Cons [simp]: "add_list fr (n # ns) = add_list (add fr n) ns"
  by (simp add: add_list_fold)

lemma frontier_ok_add_list: "frontier_ok fr \<Longrightarrow> frontier_ok (add_list fr ns)"
  by (induction ns arbitrary: fr) (simp_all add: frontier_ok_add)

lemma sort_by_add_list [simp]: "sort_by (add_list fr ns) = sort_by fr"
  by (induction ns arbitrary: fr) simp_all

lemma fringe_add_list_nodes:
  "mset (map snd (fringe (add_list fr ns))) = mset (map snd (fringe fr)) + mset ns"
proof (induction ns arbitrary: fr)
  case Nil
  then show ?case by simp
next
  case (Cons n ns)
  have "mset (map snd (fringe (add fr n))) = add_mset n (mset (map snd (fringe fr)))"
    using mset_add_map[OF fringe_add_mset[of fr n], of snd] by simp
  then show ?case using Cons.IH[of "add fr n"] by simp
qed

lemma pop_ok:
  assumes ok: "frontier_ok fr" and ne: "\<not> is_empty fr"
  shows "\<exists>v n fr'. pop fr = Inr (n, fr') \<and> frontier_ok fr' \<and> sort_by fr' = sort_by fr
           \<and> fringe fr ! 0 = (v, n)
           \<and> mset (fringe fr) = add_mset (v, n) (mset (fringe fr'))
           \<and> (\<forall>e \<in> set (fringe fr). entry_key (v, n) \<le> entry_key e)"
proof -
  have lt: "\<forall>a b. tuple_lt a b \<longleftrightarrow> entry_key a < entry_key b" using tuple_lt_key by blast
  have nonempty: "fringe fr \<noteq> []" using ne by (simp add: is_empty_def)
  have inv: "heap_inv entry_key (fringe fr)" using ok by (simp add: frontier_ok_def)
  from heappop_heap[OF lt inv nonempty] obtain h' where
    hp: "heappop tuple_lt (fringe fr) = Inr (fringe fr ! 0, h')"
    and inv': "heap_inv entry_key h'"
    and ms: "mset (fringe fr) = add_mset (fringe fr ! 0) (mset h')"
    and mn: "\<forall>y \<in> set (fringe fr). entry_key (fringe fr ! 0) \<le> entry_key y" by blast
  obtain v n where vn: "fringe fr ! 0 = (v, n)" by (cases "fringe fr ! 0")
  have sub: "set h' \<subseteq> set (fringe fr)"
    using mset_add_set[OF ms] by blast
  have "pop fr = Inr (n, fr\<lparr>fringe := h'\<rparr>)"
    using nonempty hp vn by (simp add: pop_def)
  moreover have "frontier_ok (fr\<lparr>fringe := h'\<rparr>)"
    using ok inv' sub by (auto simp: frontier_ok_def)
  ultimately show ?thesis using vn ms mn by auto
qed

lemma index_True_nth:
  "index_True bs = Inr i \<Longrightarrow> i < length bs"
  by (induction bs arbitrary: i) (auto split: if_splits sum.splits)

lemma frontier_ok_delitem:
  assumes ok: "frontier_ok fr" and d: "Frontier_delitem fr query = Inr fr'"
  shows "frontier_ok fr' \<and> sort_by fr' = sort_by fr \<and> set (fringe fr') \<subseteq> set (fringe fr)
         \<and> Suc (length (fringe fr')) = length (fringe fr)"
proof -
  have lt: "\<forall>a b. tuple_lt a b \<longleftrightarrow> entry_key a < entry_key b" using tuple_lt_key by blast
  from d obtain i where
    i: "index_True (map (\<lambda>(_, n). Node_eq n (ObjNode query)) (fringe fr)) = Inr i"
    and fr': "fr' = fr\<lparr>fringe := heapify tuple_lt (take i (fringe fr) @ drop (Suc i) (fringe fr))\<rparr>"
    by (auto simp: Frontier_delitem_def split: sum.splits)
  have ilen: "i < length (fringe fr)" using index_True_nth[OF i] by simp
  define rest where "rest = take i (fringe fr) @ drop (Suc i) (fringe fr)"
  have "set rest \<subseteq> set (fringe fr)"
    unfolding rest_def using set_take_subset[of i "fringe fr"] set_drop_subset[of "Suc i" "fringe fr"]
    by auto
  moreover have "set (heapify tuple_lt rest) = set rest"
    using mset_heapify[of tuple_lt rest] by (rule mset_eq_setD)
  ultimately have sub: "set (fringe fr') \<subseteq> set (fringe fr)" by (simp add: fr' rest_def)
  have "length (heapify tuple_lt rest) = length rest"
    using mset_heapify[of tuple_lt rest] by (rule mset_eq_length)
  then have l: "Suc (length (fringe fr')) = length (fringe fr)"
    using ilen by (simp add: fr' rest_def)
  have "heap_inv entry_key (fringe fr')"
    using heap_inv_heapify[OF lt] by (simp add: fr')
  then show ?thesis using ok sub l by (auto simp: frontier_ok_def fr')
qed

lemma pop_all_sorted:
  "frontier_ok fr \<Longrightarrow>
     sorted (map (\<lambda>n. (Node_value n (sort_by fr), loc n)) (pop_all fr)) \<and>
     mset (pop_all fr) = mset (map snd (fringe fr))"
proof (induction fr rule: pop_all.induct)
  case (1 fr)
  show ?case
  proof (cases "is_empty fr")
    case True
    then show ?thesis by (subst pop_all.simps, subst pop_all.simps) (simp add: is_empty_def)
  next
    case False
    from pop_ok[OF "1.prems" False] obtain v n fr' where
      p: "pop fr = Inr (n, fr')" and ok': "frontier_ok fr'" and sb: "sort_by fr' = sort_by fr"
      and ms: "mset (fringe fr) = add_mset (v, n) (mset (fringe fr'))"
      and mn: "\<forall>e \<in> set (fringe fr). entry_key (v, n) \<le> entry_key e" by blast
    have eq: "pop_all fr = n # pop_all fr'"
      using False p by (subst pop_all.simps) simp
    from "1.IH"[OF False p refl ok'] have
      s': "sorted (map (\<lambda>n. (Node_value n (sort_by fr), loc n)) (pop_all fr'))"
      and m': "mset (pop_all fr') = mset (map snd (fringe fr'))" using sb by simp_all
    have st: "set (fringe fr) = insert (v, n) (set (fringe fr'))"
      using ms by (rule mset_add_set)
    have vin: "(v, n) \<in> set (fringe fr)" using st by simp
    have v: "v = Node_value n (sort_by fr)"
      using "1.prems" vin by (auto simp: frontier_ok_def)
    have le: "\<forall>m \<in> set (pop_all fr').
        (Node_value n (sort_by fr), loc n) \<le> (Node_value m (sort_by fr), loc m)"
    proof
      fix m assume "m \<in> set (pop_all fr')"
      moreover have "set (pop_all fr') = set (map snd (fringe fr'))"
        using m' by (rule mset_eq_setD)
      ultimately have "m \<in> snd ` set (fringe fr')" by simp
      then obtain w where w: "(w, m) \<in> set (fringe fr')" by auto
      then have win: "(w, m) \<in> set (fringe fr)" using st by simp
      then have "w = Node_value m (sort_by fr)" using "1.prems" by (auto simp: frontier_ok_def)
      then show "(Node_value n (sort_by fr), loc n) \<le> (Node_value m (sort_by fr), loc m)"
        using mn win v by (auto simp: entry_key_def)
    qed
    have "mset (map snd (fringe fr)) = add_mset n (mset (map snd (fringe fr')))"
      using mset_add_map[OF ms, of snd] by simp
    then show ?thesis using eq s' m' le by simp
  qed
qed

lemma sorted_fst:
  "sorted (map (\<lambda>n. (k n, l n)) xs) \<Longrightarrow> sorted (map k xs)"
  by (induction xs) (auto simp: less_eq_prod_def)

text \<open>A node without parent, road or heuristic, at a location and with a path cost.\<close>

definition example_node :: "location \<Rightarrow> real \<Rightarrow> Node" where
  "example_node l c = Node_init l None None c 0 None"

lemmas frontier_eval =
  pop_all.simps is_empty_def pop_def heappop_def heappush_def Frontier_init_def add_def
  siftdown_def siftup_def siftdown_loop.simps siftup_loop.simps tuple_lt_def example_node_def
  Node_init_def Node_value_def Node_lt_def Let_def

subsection \<open>Claims on nodes and frontiers\<close>

text \<open>
  Claim C7. For every well-formed frontier and every list of nodes added to it, the nodes
  popped one after the other until the frontier is empty come out with non-decreasing
  values of the frontier's metric, and nodes of equal value come out by ascending location:
  the sequence of pairs (value, location) is sorted lexicographically. The popped nodes are
  exactly the nodes that were in the frontier and the nodes added.
\<close>

theorem pops_sorted_by_key_then_location:
  assumes "frontier_ok fr"
  shows "sorted (map (\<lambda>n. (Node_value n (sort_by fr), loc n)) (pop_all (add_list fr ns))) \<and>
         sorted (map (\<lambda>n. Node_value n (sort_by fr)) (pop_all (add_list fr ns))) \<and>
         mset (pop_all (add_list fr ns)) = mset (map snd (fringe fr)) + mset ns"
proof -
  have ok: "frontier_ok (add_list fr ns)" using assms by (rule frontier_ok_add_list)
  from pop_all_sorted[OF ok]
  have s: "sorted (map (\<lambda>n. (Node_value n (sort_by fr), loc n)) (pop_all (add_list fr ns)))"
    and m: "mset (pop_all (add_list fr ns)) = mset (map snd (fringe (add_list fr ns)))"
    by simp_all
  show ?thesis using s sorted_fst[OF s] m fringe_add_list_nodes[of fr ns] by simp
qed

theorem pops_sorted_by_key_then_location_witness:
  "frontier_ok (Frontier_init (example_node ''a'' 0) (SortStr ''g'')) \<and>
   sorted (map (\<lambda>n. (Node_value n (SortStr ''g''), loc n))
     (pop_all (add_list (Frontier_init (example_node ''a'' 0) (SortStr ''g''))
        [example_node ''c'' 2, example_node ''b'' 2, example_node ''d'' 1]))) \<and>
   map loc (pop_all (add_list (Frontier_init (example_node ''a'' 0) (SortStr ''g''))
        [example_node ''c'' 2, example_node ''b'' 2, example_node ''d'' 1]))
     = [''a'', ''d'', ''b'', ''c'']"
proof -
  have e: "map loc (pop_all (add_list (Frontier_init (example_node ''a'' 0) (SortStr ''g''))
        [example_node ''c'' 2, example_node ''b'' 2, example_node ''d'' 1]))
     = [''a'', ''d'', ''b'', ''c'']"
    by (simp add: frontier_eval)
  have s: "sort_by (Frontier_init (example_node ''a'' 0) (SortStr ''g'')) = SortStr ''g''"
    by (simp add: Frontier_init_def)
  show ?thesis
    using pops_sorted_by_key_then_location[OF frontier_ok_init,
        of "example_node ''a'' 0" "SortStr ''g''"
           "[example_node ''c'' 2, example_node ''b'' 2, example_node ''d'' 1]"]
      frontier_ok_init[of "example_node ''a'' 0" "SortStr ''g''"] e
    by (simp only: s simp_thms)
qed

text \<open>
  Claim C9. Two nodes with the same location are equal and have the same hash, whatever
  their parents, roads, path costs, heuristic values and depths; two nodes with different
  locations are not equal.
\<close>

theorem node_eq_hash_by_location:
  "(loc n1 = loc n2 \<longrightarrow> Node_eq n1 (ObjNode n2) \<and> Node_hash hash_str n1 = Node_hash hash_str n2) \<and>
   (loc n1 \<noteq> loc n2 \<longrightarrow> \<not> Node_eq n1 (ObjNode n2))"
  by (simp add: Node_hash_def)

theorem node_eq_hash_by_location_witness:
  "Node_eq (Node ''a'' None None 0 0 None 0)
     (ObjNode (Node ''a'' (Some (Node ''s'' None None 0 0 None 0)) (Some ''r'') 7 3 None 1)) \<and>
   Node_hash (\<lambda>l. int (length l)) (Node ''a'' None None 0 0 None 0) =
     Node_hash (\<lambda>l. int (length l))
       (Node ''a'' (Some (Node ''s'' None None 0 0 None 0)) (Some ''r'') 7 3 None 1) \<and>
   \<not> Node_eq (Node ''a'' None None 0 0 None 0) (ObjNode (Node ''b'' None None 0 0 None 0))"
  using node_eq_hash_by_location[of "Node ''a'' None None 0 0 None 0"
      "Node ''a'' (Some (Node ''s'' None None 0 0 None 0)) (Some ''r'') 7 3 None 1" "\<lambda>l. int (length l)"]
    node_eq_hash_by_location[of "Node ''a'' None None 0 0 None 0"
      "Node ''b'' None None 0 0 None 0" "\<lambda>l. int (length l)"]
  by simp

section \<open>The stack and the queue of breadth-first and depth-first search\<close>

text \<open>
  Modelled from the spec: the class \<^verbatim>\<open>Frontier\<close> of the module \<^verbatim>\<open>route\<close> of
  Assignment 0, which \<^verbatim>\<open>bfs.py\<close> and \<^verbatim>\<open>dfs.py\<close> import and which is not among the
  sources. The spec gives breadth-first search a FIFO queue and depth-first search a LIFO
  stack, both in insertion order. \<^verbatim>\<open>bfs.py\<close> builds its frontier as \<^verbatim>\<open>Frontier(parent)\<close>
  and \<^verbatim>\<open>dfs.py\<close> as \<^verbatim>\<open>Frontier(parent, True)\<close>: the frontier holds its nodes in the
  order of their insertion, and the second argument of the constructor says whether it is
  a stack.
\<close>

record Frontier0 =
  lifo :: bool
  queued :: "Node list"

text \<open>Modelled from the spec: a new frontier is seeded with one entry, the root node.\<close>

definition Frontier0_init :: "Node \<Rightarrow> bool \<Rightarrow> Frontier0" where
  "Frontier0_init root_node stack = \<lparr>lifo = stack, queued = [root_node]\<rparr>"

text \<open>Modelled from the spec: \<^verbatim>\<open>is_empty\<close> of a stack or queue.\<close>

definition is_empty0 :: "Frontier0 \<Rightarrow> bool" where
  "is_empty0 fr = (queued fr = [])"

text \<open>Modelled from the spec: \<^verbatim>\<open>add\<close> inserts the node after the nodes already held.\<close>

definition add0 :: "Frontier0 \<Rightarrow> Node \<Rightarrow> Frontier0" where
  "add0 fr n = fr\<lparr>queued := queued fr @ [n]\<rparr>"

text \<open>
  Modelled from the spec: \<^verbatim>\<open>pop\<close> fails on an empty frontier (\<open>EmptyFrontier\<close>); it removes
  and returns the node inserted last from a stack (insertion order, reversed pop), and the
  node inserted first from a queue (insertion order).
\<close>

definition pop0 :: "Frontier0 \<Rightarrow> py_error + Node \<times> Frontier0" where
  "pop0 fr =
     (if queued fr = [] then Inl (Exception ''EmptyFrontier'')
      else if lifo fr then Inr (last (queued fr), fr\<lparr>queued := butlast (queued fr)\<rparr>)
      else Inr (hd (queued fr), fr\<lparr>queued := tl (queued fr)\<rparr>))"

text \<open>Successive pops until the frontier is empty, in the order the nodes come out.\<close>

function pop_all0 :: "Frontier0 \<Rightarrow> Node list" where
  "pop_all0 fr =
     (if is_empty0 fr then []
      else (case pop0 fr of Inl e \<Rightarrow> [] | Inr (n, fr') \<Rightarrow> n # pop_all0 fr'))"
  by pat_completeness auto
termination
  by (relation "measure (\<lambda>fr. length (queued fr))")
     (auto simp: pop0_def is_empty0_def split: if_splits)

declare pop_all0.simps [simp del]

lemma queued_adds [simp]: "queued (foldl add0 fr ns) = queued fr @ ns"
  by (induction ns arbitrary: fr) (simp_all add: add0_def)

lemma lifo_adds [simp]: "lifo (foldl add0 fr ns) = lifo fr"
  by (induction ns arbitrary: fr) (simp_all add: add0_def)

lemma pop_all0_queue: "\<not> lifo fr \<Longrightarrow> pop_all0 fr = queued fr"
proof (induction "queued fr" arbitrary: fr)
  case Nil
  then show ?case by (subst pop_all0.simps) (simp add: is_empty0_def)
next
  case (Cons n ns)
  have "pop_all0 (fr\<lparr>queued := ns\<rparr>) = queued (fr\<lparr>queued := ns\<rparr>)"
    by (rule Cons.hyps(1)) (use Cons.prems in simp_all)
  then show ?case using Cons.hyps(2)[symmetric] Cons.prems
    by (subst pop_all0.simps) (simp add: is_empty0_def pop0_def)
qed

lemma pop_all0_stack: "lifo fr \<Longrightarrow> pop_all0 fr = rev (queued fr)"
proof (induction "queued fr" arbitrary: fr rule: rev_induct)
  case Nil
  then show ?case by (subst pop_all0.simps) (simp add: is_empty0_def)
next
  case (snoc n ns)
  have "pop_all0 (fr\<lparr>queued := ns\<rparr>) = rev (queued (fr\<lparr>queued := ns\<rparr>))"
    by (rule snoc.hyps(1)) (use snoc.prems in simp_all)
  then show ?case using snoc.hyps(2)[symmetric] snoc.prems
    by (subst pop_all0.simps) (simp add: is_empty0_def pop0_def)
qed

subsection \<open>Claims on the stack and the queue\<close>

text \<open>
  Claim C2. The frontier of \<^verbatim>\<open>DFS\<close>, built as \<^verbatim>\<open>Frontier(parent, True)\<close>, is a stack: after
  every sequence of adds, a pop returns the node added last and leaves the frontier as it
  was before that add; popped until it is empty, the frontier returns the root and the
  added nodes in the reverse of their insertion order.
\<close>

theorem dfs_stack_pops_last_added:
  "pop0 (foldl add0 (Frontier0_init root_node True) (ns @ [n]))
     = Inr (n, foldl add0 (Frontier0_init root_node True) ns) \<and>
   pop0 (Frontier0_init root_node True) = Inr (root_node, \<lparr>lifo = True, queued = []\<rparr>) \<and>
   pop_all0 (foldl add0 (Frontier0_init root_node True) ns) = rev (root_node # ns)"
proof -
  have "foldl add0 (Frontier0_init root_node True) ns
      = \<lparr>lifo = True, queued = root_node # ns\<rparr>" for ns
    by (rule Frontier0.equality) (simp_all add: Frontier0_init_def)
  then show ?thesis
    by (simp add: pop0_def pop_all0_stack Frontier0_init_def butlast_append add0_def)
qed

text \<open>
  Claim C3. The frontier of \<^verbatim>\<open>BFS\<close>, built as \<^verbatim>\<open>Frontier(parent)\<close>, is a queue: after every
  sequence of adds, a pop returns the node that was inserted first, and the frontier popped
  until it is empty returns the root and the added nodes in the order of their insertion.
\<close>

theorem bfs_queue_pops_in_insertion_order:
  "pop0 (foldl add0 (Frontier0_init root_node False) ns)
     = Inr (root_node, \<lparr>lifo = False, queued = ns\<rparr>) \<and>
   pop_all0 (foldl add0 (Frontier0_init root_node False) ns) = root_node # ns"
proof -
  have "foldl add0 (Frontier0_init root_node False) ns
      = \<lparr>lifo = False, queued = root_node # ns\<rparr>"
    by (rule Frontier0.equality) (simp_all add: Frontier0_init_def)
  then show ?thesis by (simp add: pop0_def pop_all0_queue)
qed

section \<open>Route problems and the heuristic function\<close>

text \<open>\<^verbatim>\<open>max\<close> of a list: \<^verbatim>\<open>ValueError\<close> on the empty list.\<close>

fun py_max :: "real list \<Rightarrow> py_error + real" where
  "py_max [] = Inl ValueError"
| "py_max (x # xs) = Inr (fold max xs x)"

text \<open>
  The inner loop of \<^verbatim>\<open>HeuristicFunction.__init__\<close> over the connections of one location,
  and the outer loop over the locations of \<^verbatim>\<open>loc_dict\<close>.
\<close>

fun scan_connections ::
  "RoadMap \<Rightarrow> location \<Rightarrow> location list \<Rightarrow> real list \<Rightarrow> (py_error + real list) \<times> RoadMap" where
  "scan_connections m l [] gasC = (Inr gasC, m)"
| "scan_connections m l (connection # cs) gasC =
     (case euclidean_distance m l connection of
        (Inl e, m1) \<Rightarrow> (Inl e, m1)
      | (Inr distance, m1) \<Rightarrow>
          (case get m1 l connection of
             (None, m2) \<Rightarrow> (Inl TypeError, m2)
           | (Some cost, m2) \<Rightarrow>
               if cost = 0 then (Inl ZeroDivisionError, m2)
               else (let gas = distance / cost
                     in scan_connections m2 l cs
                          (if gas \<notin> set gasC then gasC @ [gas] else gasC))))"

fun scan_locations ::
  "RoadMap \<Rightarrow> location list \<Rightarrow> real list \<Rightarrow> (py_error + real list) \<times> RoadMap" where
  "scan_locations m [] gasC = (Inr gasC, m)"
| "scan_locations m (l # ls) gasC =
     (case dict_get (connection_dict m) l of
        None \<Rightarrow> (Inl KeyError, m)
      | Some conns \<Rightarrow>
          (case scan_connections m l (keys conns) gasC of
             (Inl e, m1) \<Rightarrow> (Inl e, m1)
           | (Inr gasC1, m1) \<Rightarrow> scan_locations m1 ls gasC1))"

text \<open>
  \<^verbatim>\<open>HeuristicFunction.__init__\<close>: \<^verbatim>\<open>problem.goal\<close> fails when the problem is \<^verbatim>\<open>None\<close>;
  the scan runs on the map behind \<^verbatim>\<open>problem.map\<close>, and the object keeps that reference.
\<close>

definition HeuristicFunction_init ::
  "RouteProblem option \<Rightarrow> store \<Rightarrow> (py_error + HeuristicFunction) \<times> store" where
  "HeuristicFunction_init problem s =
     (case problem of
        None \<Rightarrow> (Inl AttributeError, s)
      | Some p \<Rightarrow>
          (case on_map (rmap p) (\<lambda>m. scan_locations m (keys (loc_dict m)) []) s of
             (Inl e, s1) \<Rightarrow> (Inl e, s1)
           | (Inr gasC, s1) \<Rightarrow>
               (case py_max gasC of
                  Inl e \<Rightarrow> (Inl e, s1)
                | Inr g \<Rightarrow>
                    (Inr \<lparr>h_problem = p, h_goal = goal p, h_map = rmap p,
                          gasConsumption = gasC, efficientGas = g\<rparr>,
                     s1))))"

text \<open>
  \<^verbatim>\<open>h_cost\<close> calls \<^verbatim>\<open>euclidean_distance\<close> on \<^verbatim>\<open>self.map\<close>, the map the heuristic function
  was built from. With the goal unset, \<^verbatim>\<open>location_coordinates(None)\<close> fails while building
  its message (\<^verbatim>\<open>TypeError\<close>); the entry it stores under the key \<^verbatim>\<open>None\<close> before that has
  no counterpart in a dictionary keyed by strings and is left out.
\<close>

definition h_cost ::
  "HeuristicFunction \<Rightarrow> location option \<Rightarrow> store \<Rightarrow> (py_error + real) \<times> store" where
  "h_cost hf l s =
     (case l of
        None \<Rightarrow> (Inr 0, s)
      | Some x \<Rightarrow>
          (case h_goal hf of
             None \<Rightarrow>
               (case on_map (h_map hf) (\<lambda>m. location_coordinates m x) s of
                  (Inl e, s1) \<Rightarrow> (Inl e, s1)
                | (Inr c, s1) \<Rightarrow> (Inl TypeError, s1))
           | Some g \<Rightarrow>
               (case on_map (h_map hf) (\<lambda>m. euclidean_distance m x g) s of
                  (Inl e, s1) \<Rightarrow> (Inl e, s1)
                | (Inr distance, s1) \<Rightarrow>
                    if efficientGas hf = 0 then (Inl ZeroDivisionError, s1)
                    else (Inr (distance / efficientGas hf), s1))))"

text \<open>
  The store of the examples: the reference 0 denotes the given map, every other reference
  an empty map.
\<close>

definition one_map :: "RoadMap \<Rightarrow> store" where
  "one_map m = (\<lambda>r. RoadMap_init)(0 := m)"

text \<open>The store with a second map object, behind the reference 1.\<close>

definition two_maps :: "RoadMap \<Rightarrow> RoadMap \<Rightarrow> store" where
  "two_maps m m' = (one_map m)(1 := m')"

text \<open>
  What the scan reads, as functions of the dictionaries alone: a location has coordinates
  when it is stored with both components non-zero; the distance of two locations; the
  connections listed for a location; the ratio of distance to cost of a road segment; and
  the ratios of all road segments leaving the locations of \<^verbatim>\<open>loc_dict\<close>.
\<close>

definition has_coordinates :: "RoadMap \<Rightarrow> location \<Rightarrow> bool" where
  "has_coordinates m l =
     (case dict_get (loc_dict m) l of None \<Rightarrow> False | Some (x, y) \<Rightarrow> x \<noteq> 0 \<and> y \<noteq> 0)"

definition distance_of :: "RoadMap \<Rightarrow> location \<Rightarrow> location \<Rightarrow> real" where
  "distance_of m a b =
     (case (dict_get (loc_dict m) a, dict_get (loc_dict m) b) of
        (Some (x0, y0), Some (x1, y1)) \<Rightarrow>
          sqrt (((x0 - x1) * (x0 - x1)) + ((y0 - y1) * (y0 - y1)))
      | _ \<Rightarrow> 0)"

definition connections_of :: "RoadMap \<Rightarrow> location \<Rightarrow> location list" where
  "connections_of m l = (case dict_get (connection_dict m) l of None \<Rightarrow> [] | Some d \<Rightarrow> keys d)"

definition edge_ratio :: "RoadMap \<Rightarrow> location \<Rightarrow> location \<Rightarrow> real" where
  "edge_ratio m l c =
     distance_of m l c / (case cost_of m l c of None \<Rightarrow> 0 | Some cost \<Rightarrow> cost)"

definition scanned_ratios :: "RoadMap \<Rightarrow> real list" where
  "scanned_ratios m =
     concat (map (\<lambda>l. map (edge_ratio m l) (connections_of m l)) (keys (loc_dict m)))"

subsection \<open>Lemmas on the scan\<close>

lemma location_coordinates_has:
  "has_coordinates m l \<Longrightarrow>
   \<exists>x y. dict_get (loc_dict m) l = Some (x, y) \<and> location_coordinates m l = (Inr (x, y), m)"
  by (auto simp: has_coordinates_def location_coordinates_def setdefault_def
      split: option.splits prod.splits)

lemma location_coordinates_Inr:
  "location_coordinates m l = (Inr c, m') \<Longrightarrow> m' = m \<and> has_coordinates m l"
  by (auto simp: has_coordinates_def location_coordinates_def setdefault_def
      split: option.splits prod.splits if_splits)

lemma euclidean_distance_has:
  "has_coordinates m a \<Longrightarrow> has_coordinates m b \<Longrightarrow>
   euclidean_distance m a b = (Inr (distance_of m a b), m)"
  using location_coordinates_has[of m a] location_coordinates_has[of m b]
  by (auto simp: euclidean_distance_def distance_of_def)

lemma euclidean_distance_Inr:
  "euclidean_distance m a b = (Inr d, m') \<Longrightarrow> m' = m"
  by (auto simp: euclidean_distance_def split: prod.splits sum.splits
      dest!: location_coordinates_Inr)

lemma get_present:
  "dict_get (connection_dict m) l = Some d \<Longrightarrow> get m l c = (dict_get d c, m)"
  by (simp add: get_def setdefault_def)

lemma scan_connections_same:
  "dict_get (connection_dict m) l = Some d \<Longrightarrow>
   scan_connections m l cs gasC = (Inr g, m') \<Longrightarrow> m' = m"
proof (induction cs arbitrary: gasC)
  case Nil
  then show ?case by simp
next
  case (Cons c cs)
  from Cons.prems(2) obtain dist where e: "euclidean_distance m l c = (Inr dist, m)"
    by (auto split: prod.splits sum.splits dest: euclidean_distance_Inr)
  show ?case
    using Cons.prems Cons.IH e get_present[OF Cons.prems(1), of c]
    by (auto split: option.splits if_splits simp: Let_def)
qed

lemma scan_connections_zero:
  "dict_get (connection_dict m) l = Some d \<Longrightarrow> c \<in> set cs \<Longrightarrow> dict_get d c = Some 0 \<Longrightarrow>
   isl (fst (scan_connections m l cs gasC))"
proof (induction cs arbitrary: gasC)
  case Nil
  then show ?case by simp
next
  case (Cons c' cs)
  show ?case
  proof (cases "euclidean_distance m l c'")
    case (Pair r m1)
    show ?thesis
    proof (cases r)
      case (Inl e)
      then show ?thesis using Pair by simp
    next
      case (Inr dist)
      then have m1: "m1 = m" using Pair euclidean_distance_Inr by blast
      show ?thesis
        using Cons.prems Cons.IH Pair Inr m1 get_present[OF Cons.prems(1), of c']
        by (auto split: option.splits simp: Let_def)
    qed
  qed
qed

lemma scan_connections_ok:
  assumes "dict_get (connection_dict m) l = Some d" and "has_coordinates m l"
  shows "\<forall>c \<in> set cs. has_coordinates m c \<and> (\<exists>cost. dict_get d c = Some cost \<and> cost \<noteq> 0) \<Longrightarrow>
   \<exists>g. scan_connections m l cs gasC = (Inr g, m) \<and> set g = set gasC \<union> edge_ratio m l ` set cs"
proof (induction cs arbitrary: gasC)
  case Nil
  then show ?case by simp
next
  case (Cons c cs)
  from Cons.prems obtain cost where c: "has_coordinates m c" "dict_get d c = Some cost" "cost \<noteq> 0"
    by auto
  have e: "euclidean_distance m l c = (Inr (distance_of m l c), m)"
    using euclidean_distance_has[OF assms(2) c(1)] .
  have g: "get m l c = (Some cost, m)" using get_present[OF assms(1), of c] c by simp
  have r: "edge_ratio m l c = distance_of m l c / cost"
    using assms(1) c by (simp add: edge_ratio_def cost_of_def)
  define gasC' where "gasC' = (if distance_of m l c / cost \<notin> set gasC
      then gasC @ [distance_of m l c / cost] else gasC)"
  have step: "scan_connections m l (c # cs) gasC = scan_connections m l cs gasC'"
    using e g c by (simp add: Let_def gasC'_def)
  from Cons.IH[of gasC'] Cons.prems obtain g' where
    g': "scan_connections m l cs gasC' = (Inr g', m)"
    "set g' = set gasC' \<union> edge_ratio m l ` set cs" by auto
  have "set gasC' = insert (edge_ratio m l c) (set gasC)" by (auto simp: gasC'_def r)
  then show ?case using step g' by auto
qed

lemma scan_locations_same:
  "scan_locations m ls gasC = (Inr g, m') \<Longrightarrow> m' = m"
proof (induction ls arbitrary: gasC)
  case Nil
  then show ?case by simp
next
  case (Cons l ls)
  from Cons.prems obtain d where d: "dict_get (connection_dict m) l = Some d"
    by (auto split: option.splits)
  from Cons.prems d obtain g1 m1 where s: "scan_connections m l (keys d) gasC = (Inr g1, m1)"
    by (auto split: prod.splits sum.splits)
  have "m1 = m" using scan_connections_same[OF d s] .
  then show ?case using Cons.prems Cons.IH d s by simp
qed

lemma scan_locations_missing:
  "l \<in> set ls \<Longrightarrow> dict_get (connection_dict m) l = None \<Longrightarrow>
   isl (fst (scan_locations m ls gasC))"
proof (induction ls arbitrary: gasC)
  case Nil
  then show ?case by simp
next
  case (Cons l' ls)
  show ?case
  proof (cases "dict_get (connection_dict m) l'")
    case None
    then show ?thesis by simp
  next
    case (Some d)
    show ?thesis
    proof (cases "scan_connections m l' (keys d) gasC")
      case (Pair r m1)
      show ?thesis
      proof (cases r)
        case (Inl e)
        then show ?thesis using Some Pair by simp
      next
        case (Inr g1)
        then have "m1 = m" using scan_connections_same[OF Some] Pair by blast
        then show ?thesis using Cons.prems Cons.IH Some Pair Inr by auto
      qed
    qed
  qed
qed

lemma scan_locations_zero:
  "l \<in> set ls \<Longrightarrow> dict_get (connection_dict m) l = Some d \<Longrightarrow> dict_get d c = Some 0 \<Longrightarrow>
   isl (fst (scan_locations m ls gasC))"
proof (induction ls arbitrary: gasC)
  case Nil
  then show ?case by simp
next
  case (Cons l' ls)
  show ?case
  proof (cases "dict_get (connection_dict m) l'")
    case None
    then show ?thesis by simp
  next
    case (Some d')
    show ?thesis
    proof (cases "scan_connections m l' (keys d') gasC")
      case (Pair r m1)
      show ?thesis
      proof (cases r)
        case (Inl e)
        then show ?thesis using Some Pair by simp
      next
        case (Inr g1)
        then have m1: "m1 = m" using scan_connections_same[OF Some] Pair by blast
        show ?thesis
        proof (cases "l' = l")
          case True
          then have dd: "d' = d" using Some Cons.prems(2) by simp
          have "c \<in> set (keys d)"
            using Cons.prems(3) dict_get_None_iff[of d c] by auto
          from scan_connections_zero[OF Cons.prems(2) this Cons.prems(3), of gasC]
          show ?thesis using Pair Inr True dd by simp
        next
          case False
          then show ?thesis using Cons.prems Cons.IH Some Pair Inr m1 by auto
        qed
      qed
    qed
  qed
qed

lemma scan_locations_ok:
  assumes "\<forall>l \<in> set ls. has_coordinates m l \<and>
            (\<exists>d. dict_get (connection_dict m) l = Some d \<and>
              (\<forall>c \<in> set (keys d). has_coordinates m c \<and> (\<exists>cost. dict_get d c = Some cost \<and> cost \<noteq> 0)))"
  shows "\<exists>g. scan_locations m ls gasC = (Inr g, m) \<and>
           set g = set gasC \<union> set (concat (map (\<lambda>l. map (edge_ratio m l) (connections_of m l)) ls))"
  using assms
proof (induction ls arbitrary: gasC)
  case Nil
  then show ?case by simp
next
  case (Cons l ls)
  from Cons.prems obtain d where d: "dict_get (connection_dict m) l = Some d"
    and hl: "has_coordinates m l"
    and cs: "\<forall>c \<in> set (keys d). has_coordinates m c \<and> (\<exists>cost. dict_get d c = Some cost \<and> cost \<noteq> 0)"
    by auto
  from scan_connections_ok[OF d hl cs, of gasC] obtain g1 where
    g1: "scan_connections m l (keys d) gasC = (Inr g1, m)"
    "set g1 = set gasC \<union> edge_ratio m l ` set (keys d)" by blast
  from Cons.IH[of g1] Cons.prems obtain g where
    g: "scan_locations m ls g1 = (Inr g, m)"
    "set g = set g1 \<union> set (concat (map (\<lambda>l. map (edge_ratio m l) (connections_of m l)) ls))"
    by auto
  have "connections_of m l = keys d" using d by (simp add: connections_of_def)
  then show ?case using d g1 g by auto
qed

lemma py_max_Max:
  assumes "g \<noteq> []"
  shows "py_max g = Inr (Max (set g))"
proof (cases g)
  case Nil
  then show ?thesis using assms by simp
next
  case (Cons x xs)
  have "Max (set (x # xs)) = fold max xs x" by (rule Max.set_eq_fold)
  then show ?thesis using Cons by simp
qed

text \<open>
  Locations \<open>a\<close> at (1, 1) and \<open>b\<close> at (4, 5), at distance 5; road \<open>r1\<close> from \<open>a\<close> to
  \<open>b\<close> with cost 2 and road \<open>r2\<close> back with cost 5.
\<close>

definition round_trip_map :: RoadMap where
  "round_trip_map =
     add_road (add_road (add_location (add_location RoadMap_init ''a'' 1 1) ''b'' 4 5)
       ''a'' ''b'' (Some ''r1'') 2) ''b'' ''a'' (Some ''r2'') 5"

lemma round_trip_map_eq:
  "round_trip_map = \<lparr>connection_dict = [(''a'', [(''b'', 2)]), (''b'', [(''a'', 5)])],
     road_dict = [(''a'', [(''r1'', ''b'')]), (''b'', [(''r2'', ''a'')])],
     loc_dict = [(''a'', (1, 1)), (''b'', (4, 5))]\<rparr>"
  by (simp add: round_trip_map_def add_road_def add_location_def RoadMap_init_def setdefault_def)

lemma sqrt_25: "sqrt 25 = (5::real)"
  by (rule real_sqrt_unique) simp_all

lemma snd_on_map: "snd (on_map r method s) = s(r := snd (method (s r)))"
  by (simp add: on_map_def split: prod.splits)

lemma on_map_eq: "on_map r method s = (fst (method (s r)), s(r := snd (method (s r))))"
  by (simp add: on_map_def split: prod.splits)

lemma one_map_0 [simp]: "one_map m 0 = m"
  by (simp add: one_map_def)

lemma one_map_upd [simp]: "(one_map m)(0 := m') = one_map m'"
  by (simp add: one_map_def)

lemma two_maps_0 [simp]: "two_maps m m' 0 = m"
  by (simp add: two_maps_def)

lemma two_maps_1 [simp]: "two_maps m m' 1 = m'" "two_maps m m' (Suc 0) = m'"
  by (simp_all add: two_maps_def)

subsection \<open>Claim on the heuristic function\<close>

text \<open>
  Claim C10, as amended. Constructing a \<^verbatim>\<open>HeuristicFunction\<close> fails whenever some location
  of \<^verbatim>\<open>loc_dict\<close> has no entry in \<^verbatim>\<open>connection_dict\<close>, and whenever some road segment
  leaving a location of \<^verbatim>\<open>loc_dict\<close> has cost zero. It succeeds, leaves the map as it was
  and sets \<^verbatim>\<open>efficientGas\<close> to the maximum ratio of distance to cost over the scanned road
  segments when \<^verbatim>\<open>loc_dict\<close> is not empty, every location of \<^verbatim>\<open>loc_dict\<close> has at least one
  outgoing road segment, all their costs are positive, and every location of \<^verbatim>\<open>loc_dict\<close>
  and every end of such a road segment is stored with both coordinates non-zero. The map
  is the one behind the reference of the problem, in any store.
\<close>

theorem heuristic_init_fails_or_max_ratio:
  "((\<exists>l \<in> set (keys (loc_dict (s (rmap p)))). dict_get (connection_dict (s (rmap p))) l = None)
      \<longrightarrow> isl (fst (HeuristicFunction_init (Some p) s))) \<and>
   ((\<exists>l \<in> set (keys (loc_dict (s (rmap p)))). \<exists>c. cost_of (s (rmap p)) l c = Some 0)
      \<longrightarrow> isl (fst (HeuristicFunction_init (Some p) s))) \<and>
   (loc_dict (s (rmap p)) \<noteq> [] \<and>
    (\<forall>l \<in> set (keys (loc_dict (s (rmap p)))).
        has_coordinates (s (rmap p)) l \<and> connections_of (s (rmap p)) l \<noteq> [] \<and>
        (\<forall>c \<in> set (connections_of (s (rmap p)) l).
            has_coordinates (s (rmap p)) c \<and>
            (\<exists>cost. cost_of (s (rmap p)) l c = Some cost \<and> 0 < cost)))
      \<longrightarrow> (\<exists>hf. HeuristicFunction_init (Some p) s = (Inr hf, s) \<and>
                 h_goal hf = goal p \<and> h_map hf = rmap p \<and>
                 efficientGas hf = Max (set (scanned_ratios (s (rmap p))))))"
proof (intro conjI impI)
  define m where "m = s (rmap p)"
  assume "\<exists>l \<in> set (keys (loc_dict (s (rmap p)))). dict_get (connection_dict (s (rmap p))) l = None"
  then obtain l where "l \<in> set (keys (loc_dict m))"
    "dict_get (connection_dict m) l = None" unfolding m_def by blast
  from scan_locations_missing[OF this, of "[]"]
  show "isl (fst (HeuristicFunction_init (Some p) s))"
    by (auto simp: HeuristicFunction_init_def on_map_def m_def split: prod.splits sum.splits)
next
  define m where "m = s (rmap p)"
  assume "\<exists>l \<in> set (keys (loc_dict (s (rmap p)))). \<exists>c. cost_of (s (rmap p)) l c = Some 0"
  then obtain l c d where "l \<in> set (keys (loc_dict m))"
    "dict_get (connection_dict m) l = Some d" "dict_get d c = Some 0"
    by (auto simp: cost_of_def m_def split: option.splits)
  from scan_locations_zero[OF this, of "[]"]
  show "isl (fst (HeuristicFunction_init (Some p) s))"
    by (auto simp: HeuristicFunction_init_def on_map_def m_def split: prod.splits sum.splits)
next
  define m where "m = s (rmap p)"
  assume a: "loc_dict (s (rmap p)) \<noteq> [] \<and>
    (\<forall>l \<in> set (keys (loc_dict (s (rmap p)))).
        has_coordinates (s (rmap p)) l \<and> connections_of (s (rmap p)) l \<noteq> [] \<and>
        (\<forall>c \<in> set (connections_of (s (rmap p)) l).
            has_coordinates (s (rmap p)) c \<and>
            (\<exists>cost. cost_of (s (rmap p)) l c = Some cost \<and> 0 < cost)))"
  have pre: "\<forall>l \<in> set (keys (loc_dict m)). has_coordinates m l \<and>
            (\<exists>d. dict_get (connection_dict m) l = Some d \<and>
              (\<forall>c \<in> set (keys d). has_coordinates m c \<and> (\<exists>cost. dict_get d c = Some cost \<and> cost \<noteq> 0)))"
  proof
    fix l assume l: "l \<in> set (keys (loc_dict m))"
    then have h: "has_coordinates m l" and ne: "connections_of m l \<noteq> []"
      and cs: "\<forall>c \<in> set (connections_of m l).
            has_coordinates m c \<and> (\<exists>cost. cost_of m l c = Some cost \<and> 0 < cost)"
      using a by (auto simp: m_def)
    from ne obtain d where d: "dict_get (connection_dict m) l = Some d"
      by (auto simp: connections_of_def split: option.splits)
    have k: "connections_of m l = keys d" using d by (simp add: connections_of_def)
    have "\<forall>c \<in> set (keys d). has_coordinates m c \<and> (\<exists>cost. dict_get d c = Some cost \<and> cost \<noteq> 0)"
      using cs d k by (auto simp: cost_of_def)
    then show "has_coordinates m l \<and>
            (\<exists>d. dict_get (connection_dict m) l = Some d \<and>
              (\<forall>c \<in> set (keys d). has_coordinates m c \<and> (\<exists>cost. dict_get d c = Some cost \<and> cost \<noteq> 0)))"
      using h d by blast
  qed
  from scan_locations_ok[OF pre, of "[]"] obtain g where
    g: "scan_locations m (keys (loc_dict m)) [] = (Inr g, m)"
    "set g = set (scanned_ratios m)" by (auto simp: scanned_ratios_def)
  obtain l0 where l0: "l0 \<in> set (keys (loc_dict m))"
    using a by (cases "loc_dict m") (auto simp: m_def keys_def)
  then have "connections_of m l0 \<noteq> []" using a by (auto simp: m_def)
  then have "scanned_ratios m \<noteq> []" using l0 by (auto simp: scanned_ratios_def)
  then have gne: "g \<noteq> []" using g(2) by auto
  have "py_max g = Inr (Max (set (scanned_ratios m)))"
    using py_max_Max[OF gne] g(2) by simp
  then show "\<exists>hf. HeuristicFunction_init (Some p) s = (Inr hf, s) \<and>
                 h_goal hf = goal p \<and> h_map hf = rmap p \<and>
                 efficientGas hf = Max (set (scanned_ratios (s (rmap p))))"
    using g(1) by (simp add: HeuristicFunction_init_def on_map_def m_def)
qed

theorem heuristic_init_fails_or_max_ratio_witness:
  "isl (fst (HeuristicFunction_init (Some \<lparr>rmap = 0, start = ''a'', goal = None\<rparr>)
      (one_map (add_location RoadMap_init ''a'' 1 1)))) \<and>
   isl (fst (HeuristicFunction_init (Some \<lparr>rmap = 0, start = ''a'', goal = None\<rparr>)
      (one_map (add_road (add_location RoadMap_init ''a'' 1 1) ''a'' ''b'' None 0)))) \<and>
   (\<exists>hf. HeuristicFunction_init (Some \<lparr>rmap = 0, start = ''a'', goal = Some ''b''\<rparr>)
            (one_map round_trip_map)
            = (Inr hf, one_map round_trip_map) \<and>
         h_goal hf = Some ''b'' \<and> h_map hf = 0 \<and> efficientGas hf = 5 / 2)"
proof -
  have a: "\<exists>l \<in> set (keys (loc_dict (add_location RoadMap_init ''a'' 1 1))).
      dict_get (connection_dict (add_location RoadMap_init ''a'' 1 1)) l = None"
    by (simp add: add_location_def RoadMap_init_def keys_def)
  have b: "\<exists>l \<in> set (keys (loc_dict (add_road (add_location RoadMap_init ''a'' 1 1) ''a'' ''b'' None 0))).
      \<exists>c. cost_of (add_road (add_location RoadMap_init ''a'' 1 1) ''a'' ''b'' None 0) l c = Some 0"
  proof -
    have "cost_of (add_road (add_location RoadMap_init ''a'' 1 1) ''a'' ''b'' None 0) ''a'' ''b''
        = Some 0"
      by (simp add: cost_of_add_road)
    moreover have "''a'' \<in> set (keys (loc_dict
        (add_road (add_location RoadMap_init ''a'' 1 1) ''a'' ''b'' None 0)))"
      by (simp add: add_road_def add_location_def RoadMap_init_def keys_def setdefault_def)
    ultimately show ?thesis by blast
  qed
  have c: "loc_dict round_trip_map \<noteq> [] \<and>
    (\<forall>l \<in> set (keys (loc_dict round_trip_map)).
        has_coordinates round_trip_map l \<and> connections_of round_trip_map l \<noteq> [] \<and>
        (\<forall>c \<in> set (connections_of round_trip_map l).
            has_coordinates round_trip_map c \<and>
            (\<exists>cost. cost_of round_trip_map l c = Some cost \<and> 0 < cost)))"
    by (simp add: round_trip_map_eq keys_def has_coordinates_def connections_of_def cost_of_def)
  have r: "Max (set (scanned_ratios round_trip_map)) = 5 / 2"
    by (simp add: round_trip_map_eq scanned_ratios_def keys_def connections_of_def edge_ratio_def
        distance_of_def cost_of_def sqrt_25)
  show ?thesis
    using heuristic_init_fails_or_max_ratio[of
        "one_map (add_location RoadMap_init ''a'' 1 1)"
        "\<lparr>rmap = 0, start = ''a'', goal = None\<rparr>"] a
      heuristic_init_fails_or_max_ratio[of
        "one_map (add_road (add_location RoadMap_init ''a'' 1 1) ''a'' ''b'' None 0)"
        "\<lparr>rmap = 0, start = ''a'', goal = None\<rparr>"] b
      heuristic_init_fails_or_max_ratio[of
        "one_map round_trip_map" "\<lparr>rmap = 0, start = ''a'', goal = Some ''b''\<rparr>"] c r
    by simp
qed

text \<open>
  The claim C10 as stated fails on the example map: both locations of \<^verbatim>\<open>loc_dict\<close> have an
  outgoing road segment with a positive cost, but the end \<open>c\<close> of the second one has no
  coordinates, and the construction raises.
\<close>

theorem heuristic_init_unlisted_end_counterexample:
  "keys (loc_dict example_map) = [''a'', ''b''] \<and>
   connections_of example_map ''a'' = [''b''] \<and> cost_of example_map ''a'' ''b'' = Some 2 \<and>
   connections_of example_map ''b'' = [''c''] \<and> cost_of example_map ''b'' ''c'' = Some 3 \<and>
   fst (HeuristicFunction_init (Some \<lparr>rmap = 0, start = ''a'', goal = Some ''b''\<rparr>)
          (one_map example_map))
     = Inl (Exception ''Unknown location - c'')"
  by (simp add: example_map_eq keys_def connections_of_def cost_of_def HeuristicFunction_init_def
      on_map_def euclidean_distance_def location_coordinates_def get_def setdefault_def sqrt_25)

section \<open>Expanding a node\<close>

text \<open>The search depth limit of \<^verbatim>\<open>route.py\<close>.\<close>

definition depth_limit :: nat where
  "depth_limit = 20"

text \<open>The methods of a \<^verbatim>\<open>RouteProblem\<close> call the map behind \<^verbatim>\<open>self.map\<close>.\<close>

definition actions :: "RouteProblem \<Rightarrow> location \<Rightarrow> store \<Rightarrow> string list \<times> store" where
  "actions p l s =
     (case on_map (rmap p) (\<lambda>m. get_result_dict m l) s of (d, s1) \<Rightarrow> (keys d, s1))"

definition result :: "RouteProblem \<Rightarrow> location \<Rightarrow> string \<Rightarrow> store \<Rightarrow> location option \<times> store" where
  "result p l rd s = on_map (rmap p) (\<lambda>m. get_result m l rd) s"

definition is_goal :: "RouteProblem \<Rightarrow> location \<Rightarrow> bool" where
  "is_goal p l = (Some l = goal p)"

text \<open>
  \<^verbatim>\<open>is_goal\<close> called with a node, as \<^verbatim>\<open>bfs.py\<close> and \<^verbatim>\<open>dfs.py\<close> do for the root:
  \<^verbatim>\<open>loc == self.goal\<close> is then \<^verbatim>\<open>Node.__eq__\<close> against a location or \<^verbatim>\<open>None\<close>.
\<close>

definition is_goal_node :: "RouteProblem \<Rightarrow> Node \<Rightarrow> bool" where
  "is_goal_node p n = Node_eq n (case goal p of None \<Rightarrow> ObjNone | Some g \<Rightarrow> ObjLoc g)"

definition action_cost ::
  "RouteProblem \<Rightarrow> location \<Rightarrow> location \<Rightarrow> store \<Rightarrow> real option \<times> store" where
  "action_cost p a b s = on_map (rmap p) (\<lambda>m. get m a b) s"

text \<open>
  \<^verbatim>\<open>child_node\<close>. When the road does not resolve, \<^verbatim>\<open>action_cost(self.loc, None)\<close> returns
  the dictionary of successors, and adding it to the path cost raises \<^verbatim>\<open>TypeError\<close>; so
  does adding a cost that is \<^verbatim>\<open>None\<close>. The heuristic function of the child evaluates the
  child's location on its own map.
\<close>

definition child_node ::
  "Node \<Rightarrow> RouteProblem \<Rightarrow> string \<Rightarrow> HeuristicFunction option \<Rightarrow> store \<Rightarrow> (py_error + Node) \<times> store"
  where
  "child_node self p rd hf s =
     (case result p (loc self) rd s of
        (None, s1) \<Rightarrow> (Inl TypeError, snd (on_map (rmap p) (\<lambda>m. get_dict m (loc self)) s1))
      | (Some child_loc, s1) \<Rightarrow>
          (case action_cost p (loc self) child_loc s1 of
             (None, s2) \<Rightarrow> (Inl TypeError, s2)
           | (Some c, s2) \<Rightarrow>
               (let child_cost = node_path_cost self + c;
                    child_h_fun = (case hf of None \<Rightarrow> h_fun self | Some h \<Rightarrow> Some h)
                in case child_h_fun of
                     None \<Rightarrow>
                       (Inr (Node_init child_loc (Some self) (Some rd) child_cost 0 child_h_fun), s2)
                   | Some h \<Rightarrow>
                       (case h_cost h (Some child_loc) s2 of
                          (Inl e, s3) \<Rightarrow> (Inl e, s3)
                        | (Inr child_eval, s3) \<Rightarrow>
                            (Inr (Node_init child_loc (Some self) (Some rd) child_cost child_eval
                                    child_h_fun),
                             s3)))))"

text \<open>The list comprehension of \<^verbatim>\<open>expand\<close> over the roads leaving the node.\<close>

fun expand_roads ::
  "Node \<Rightarrow> RouteProblem \<Rightarrow> string list \<Rightarrow> store \<Rightarrow> (py_error + Node list) \<times> store" where
  "expand_roads self p [] s = (Inr [], s)"
| "expand_roads self p (rd # rds) s =
     (case child_node self p rd None s of
        (Inl e, s1) \<Rightarrow> (Inl e, s1)
      | (Inr c, s1) \<Rightarrow>
          (case expand_roads self p rds s1 of
             (Inl e, s2) \<Rightarrow> (Inl e, s2)
           | (Inr cs, s2) \<Rightarrow> (Inr (c # cs), s2)))"

text \<open>
  \<^verbatim>\<open>expand\<close>. The counter \<^verbatim>\<open>vars.node_expansion_count\<close> it increments belongs to a module
  that is not part of the sources and is read by none of the functions here.
\<close>

definition expand :: "Node \<Rightarrow> RouteProblem \<Rightarrow> store \<Rightarrow> (py_error + Node list) \<times> store" where
  "expand self p s =
     (if depth self \<ge> depth_limit then (Inr [], s)
      else (case actions p (loc self) s of (rds, s1) \<Rightarrow> expand_roads self p rds s1))"

section \<open>The searches\<close>

text \<open>\<^verbatim>\<open>child in reachedNodes\<close>: some node of the list equals the child.\<close>

definition node_in :: "Node \<Rightarrow> Node list \<Rightarrow> bool" where
  "node_in n xs = list_ex (\<lambda>x. Node_eq x (ObjNode n)) xs"

text \<open>
  The test \<^verbatim>\<open>frontier.contains(child) and frontier[child] > frontier.__getitem__(child)\<close>
  of \<^verbatim>\<open>ucost.py\<close> and \<^verbatim>\<open>astar.py\<close>: both operands of the comparison are the lookup of the child
  in the frontier.
\<close>

definition replace_condition :: "Frontier \<Rightarrow> Node \<Rightarrow> py_error + bool" where
  "replace_condition fr child =
     (if contains fr child then
        (case Frontier_getitem fr child of
           Inl e \<Rightarrow> Inl e
         | Inr v1 \<Rightarrow>
             (case Frontier_getitem fr child of
                Inl e \<Rightarrow> Inl e
              | Inr v2 \<Rightarrow> Inr (v1 > v2)))
      else Inr False)"

type_synonym search_state = "Frontier \<times> Node list"

text \<open>The body of the loop over the children in \<^verbatim>\<open>greedy.py\<close>.\<close>

definition visit_child :: "bool \<Rightarrow> search_state \<Rightarrow> Node \<Rightarrow> py_error + search_state" where
  "visit_child repeat_check st child =
     (case st of (fr, visited) \<Rightarrow>
        if repeat_check then
          (if \<not> node_in child visited then Inr (add fr child, visited @ [child])
           else Inr (fr, visited))
        else Inr (add fr child, visited))"

text \<open>The body of the loop over the children in \<^verbatim>\<open>ucost.py\<close> and \<^verbatim>\<open>astar.py\<close>.\<close>

definition replace_child :: "bool \<Rightarrow> search_state \<Rightarrow> Node \<Rightarrow> py_error + search_state" where
  "replace_child repeat_check st child =
     (case st of (fr, reachedNodes) \<Rightarrow>
        if repeat_check then
          (if node_in child reachedNodes then
             (case replace_condition fr child of
                Inl e \<Rightarrow> Inl e
              | Inr True \<Rightarrow>
                  (case Frontier_delitem fr child of
                     Inl e \<Rightarrow> Inl e
                   | Inr fr1 \<Rightarrow> Inr (add fr1 child, reachedNodes))
              | Inr False \<Rightarrow> Inr (fr, reachedNodes))
           else Inr (add fr child, reachedNodes @ [child]))
        else Inr (add fr child, reachedNodes))"

text \<open>Which of the two loop bodies a search uses.\<close>

datatype child_policy = Visit | Replace

fun handle_child :: "child_policy \<Rightarrow> bool \<Rightarrow> search_state \<Rightarrow> Node \<Rightarrow> py_error + search_state" where
  "handle_child Visit repeat_check st child = visit_child repeat_check st child"
| "handle_child Replace repeat_check st child = replace_child repeat_check st child"

fun for_children ::
  "child_policy \<Rightarrow> bool \<Rightarrow> search_state \<Rightarrow> Node list \<Rightarrow> py_error + search_state" where
  "for_children pol repeat_check st [] = Inr st"
| "for_children pol repeat_check st (child # children) =
     (case handle_child pol repeat_check st child of
        Inl e \<Rightarrow> Inl e
      | Inr st1 \<Rightarrow> for_children pol repeat_check st1 children)"

text \<open>
  The roads listed for a location (none for an absent location), the locations its roads
  lead to in the order \<^verbatim>\<open>expand\<close> generates them, and the size of the search tree below a
  location when \<open>k\<close> more levels may be expanded.
\<close>

definition roads_at :: "RoadMap \<Rightarrow> location \<Rightarrow> (string, location) dict" where
  "roads_at m l = (case dict_get (road_dict m) l of None \<Rightarrow> [] | Some d \<Rightarrow> d)"

definition targets :: "RoadMap \<Rightarrow> location \<Rightarrow> location list" where
  "targets m l = List.map_filter (dict_get (roads_at m l)) (keys (roads_at m l))"

fun tree_size :: "(location \<Rightarrow> location list) \<Rightarrow> nat \<Rightarrow> location \<Rightarrow> nat" where
  "tree_size t 0 l = 1"
| "tree_size t (Suc k) l = 1 + sum_list (map (tree_size t k) (t l))"

definition weight :: "RoadMap \<Rightarrow> Node \<Rightarrow> nat" where
  "weight m n = tree_size (targets m) (depth_limit - depth n) (loc n)"

definition fringe_weight :: "RoadMap \<Rightarrow> Frontier \<Rightarrow> nat" where
  "fringe_weight m fr = sum_mset (image_mset (weight m) (mset (map snd (fringe fr))))"

definition agree :: "RoadMap \<Rightarrow> RoadMap \<Rightarrow> bool" where
  "agree m m' = (roads_at m' = roads_at m \<and> cost_of m' = cost_of m)"

lemma agree_refl [simp]: "agree m m"
  by (simp add: agree_def)

lemma edge_of_roads_at: "edge_of m l r = dict_get (roads_at m l) r"
  by (simp add: edge_of_def roads_at_def split: option.splits)

lemma agree_edge_of: "agree m m' \<Longrightarrow> edge_of m' = edge_of m"
  by (simp add: agree_def edge_of_roads_at fun_eq_iff)

lemma agree_targets: "agree m m' \<Longrightarrow> targets m' = targets m"
  by (simp add: agree_def targets_def fun_eq_iff)

lemma agree_weight: "agree m m' \<Longrightarrow> weight m' = weight m"
  by (simp add: weight_def agree_targets fun_eq_iff)

subsection \<open>What the lookups change in the maps\<close>

text \<open>
  A map grows into another when each of its three dictionaries is extended only by default
  entries (an empty inner dictionary, or the coordinates (0, 0)) for keys it lacked.
\<close>

definition map_grows :: "RoadMap \<Rightarrow> RoadMap \<Rightarrow> bool" where
  "map_grows m m' =
     (only_appends [] (connection_dict m) (connection_dict m') \<and>
      only_appends [] (road_dict m) (road_dict m') \<and>
      only_appends (0, 0) (loc_dict m) (loc_dict m'))"

lemma map_grows_refl [simp]: "map_grows m m"
  by (simp add: map_grows_def only_appends_refl)

lemma map_grows_trans: "map_grows m m1 \<Longrightarrow> map_grows m1 m2 \<Longrightarrow> map_grows m m2"
  unfolding map_grows_def by (blast intro: only_appends_trans)

lemma map_grows_get: "map_grows m (snd (get m s e))"
  by (auto simp: map_grows_def snd_get only_appends_refl dict_get_None_iff
      intro: only_appends_snoc)

lemma map_grows_get_dict: "map_grows m (snd (get_dict m s))"
  using map_grows_get[of m s undefined] by (simp add: snd_get_dict[of m s undefined])

lemma map_grows_get_result: "map_grows m (snd (get_result m s r))"
  by (auto simp: map_grows_def snd_get_result only_appends_refl dict_get_None_iff
      intro: only_appends_snoc)

lemma map_grows_get_result_dict: "map_grows m (snd (get_result_dict m s))"
  using map_grows_get_result[of m s undefined]
  by (simp add: snd_get_result_dict[of m s undefined])

lemma map_grows_location_coordinates: "map_grows m (snd (location_coordinates m l))"
  by (auto simp: map_grows_def snd_location_coordinates only_appends_refl dict_get_None_iff
      intro: only_appends_snoc)

lemma map_grows_euclidean_distance: "map_grows m (snd (euclidean_distance m a b))"
proof -
  have 1: "map_grows m (snd (location_coordinates m a))"
    by (rule map_grows_location_coordinates)
  have 2: "map_grows (snd (location_coordinates m a))
      (snd (location_coordinates (snd (location_coordinates m a)) b))"
    by (rule map_grows_location_coordinates)
  show ?thesis
    using 1 map_grows_trans[OF 1 2]
    by (auto simp: euclidean_distance_def split: prod.splits sum.splits)
qed

text \<open>A store grows into another when each of its maps does.\<close>

definition store_grows :: "store \<Rightarrow> store \<Rightarrow> bool" where
  "store_grows s s' = (\<forall>r. map_grows (s r) (s' r))"

lemma store_grows_refl [simp]: "store_grows s s"
  by (simp add: store_grows_def)

lemma store_grows_trans: "store_grows s s1 \<Longrightarrow> store_grows s1 s2 \<Longrightarrow> store_grows s s2"
  unfolding store_grows_def by (blast intro: map_grows_trans)

lemma store_grows_on_map:
  assumes "\<And>m. map_grows m (snd (method m))"
  shows "store_grows s (snd (on_map r method s))"
  using assms by (simp add: store_grows_def snd_on_map)

lemma only_appends_get:
  assumes "only_appends dflt d d'"
  shows "dict_get d' k = (case dict_get d k of Some v \<Rightarrow> Some v
           | None \<Rightarrow> if dict_get d' k = None then None else Some dflt)"
proof -
  define ext where "ext = drop (length d) d'"
  have d': "d' = d @ ext"
    using assms append_take_drop_id[of "length d" d'] by (simp add: only_appends_def ext_def)
  have ext: "\<And>v. dict_get ext k = Some v \<Longrightarrow> v = dflt"
    using assms unfolding only_appends_def ext_def dict_get_def by (auto dest: map_of_SomeD)
  show ?thesis
    using ext by (auto simp: d' dict_get_def map_add_def split: option.splits)
qed

lemma map_grows_roads_at: "map_grows m m' \<Longrightarrow> roads_at m' l = roads_at m l"
  using only_appends_get[of "[]" "road_dict m" "road_dict m'" l]
  by (auto simp: map_grows_def roads_at_def split: option.splits if_splits)

lemma map_grows_cost_of: "map_grows m m' \<Longrightarrow> cost_of m' a b = cost_of m a b"
  using only_appends_get[of "[]" "connection_dict m" "connection_dict m'" a]
  by (auto simp: map_grows_def cost_of_def split: option.splits if_splits)

lemma map_grows_agree: "map_grows m m' \<Longrightarrow> agree m m'"
  by (simp add: agree_def fun_eq_iff map_grows_roads_at map_grows_cost_of)

lemma map_grows_has_coordinates:
  "map_grows m m' \<Longrightarrow> has_coordinates m l \<Longrightarrow> has_coordinates m' l"
  using only_appends_get[of "(0, 0)" "loc_dict m" "loc_dict m'" l]
  by (auto simp: map_grows_def has_coordinates_def split: option.splits if_splits)

lemma store_grows_agree: "store_grows s s' \<Longrightarrow> agree (s r) (s' r)"
  by (simp add: store_grows_def map_grows_agree)

lemma store_grows_actions: "store_grows s (snd (actions p l s))"
proof -
  have "store_grows s (snd (on_map (rmap p) (\<lambda>m. get_result_dict m l) s))"
    by (rule store_grows_on_map) (rule map_grows_get_result_dict)
  then show ?thesis by (auto simp: actions_def split: prod.splits)
qed

lemma store_grows_result: "store_grows s (snd (result p l rd s))"
  unfolding result_def by (rule store_grows_on_map) (rule map_grows_get_result)

lemma store_grows_action_cost: "store_grows s (snd (action_cost p a b s))"
  unfolding action_cost_def by (rule store_grows_on_map) (rule map_grows_get)

lemma store_grows_h_cost: "store_grows s (snd (h_cost hf l s))"
proof -
  have 1: "store_grows s (snd (on_map (h_map hf) (\<lambda>m. location_coordinates m x) s))" for x
    by (rule store_grows_on_map) (rule map_grows_location_coordinates)
  have 2: "store_grows s (snd (on_map (h_map hf) (\<lambda>m. euclidean_distance m x g) s))" for x g
    by (rule store_grows_on_map) (rule map_grows_euclidean_distance)
  show ?thesis
  proof (cases l)
    case None
    then show ?thesis by (simp add: h_cost_def)
  next
    case (Some x)
    show ?thesis
    proof (cases "h_goal hf")
      case None
      then show ?thesis using Some 1[of x]
        by (auto simp: h_cost_def split: prod.splits sum.splits)
    next
      case g: (Some g)
      then show ?thesis using Some 2[of x g]
        by (auto simp: h_cost_def split: prod.splits sum.splits)
    qed
  qed
qed

lemma store_grows_child_node: "store_grows s (snd (child_node self p rd hf s))"
proof -
  obtain e s1 where r: "result p (loc self) rd s = (e, s1)" by (cases "result p (loc self) rd s")
  have g1: "store_grows s s1" using store_grows_result[of s p "loc self" rd] r by simp
  show ?thesis
  proof (cases e)
    case None
    have "store_grows s1 (snd (on_map (rmap p) (\<lambda>m. get_dict m (loc self)) s1))"
      by (rule store_grows_on_map) (rule map_grows_get_dict)
    then show ?thesis using r None g1 by (auto simp: child_node_def intro: store_grows_trans)
  next
    case (Some cl)
    obtain c s2 where ac: "action_cost p (loc self) cl s1 = (c, s2)"
      by (cases "action_cost p (loc self) cl s1")
    have g2: "store_grows s s2"
      using g1 store_grows_action_cost[of s1 p "loc self" cl] ac by (auto intro: store_grows_trans)
    show ?thesis
    proof (cases c)
      case None
      then show ?thesis using r Some ac g2 by (simp add: child_node_def)
    next
      case cst: (Some cv)
      show ?thesis
      proof (cases "case hf of None \<Rightarrow> h_fun self | Some h \<Rightarrow> Some h")
        case None
        then show ?thesis using r Some ac cst g2 by (simp add: child_node_def Let_def)
      next
        case hh: (Some h)
        have g3: "store_grows s (snd (h_cost h (Some cl) s2))"
          using g2 store_grows_h_cost[of s2 h "Some cl"] by (rule store_grows_trans)
        show ?thesis using r Some ac cst hh g3
          by (cases "h_cost h (Some cl) s2")
             (auto simp: child_node_def Let_def split: sum.splits)
      qed
    qed
  qed
qed

lemma store_grows_expand_roads: "store_grows s (snd (expand_roads self p rds s))"
proof (induction rds arbitrary: s)
  case Nil
  then show ?case by simp
next
  case (Cons rd rds)
  obtain r s1 where c: "child_node self p rd None s = (r, s1)"
    by (cases "child_node self p rd None s")
  have g1: "store_grows s s1" using store_grows_child_node[of s self p rd None] c by simp
  show ?case
  proof (cases r)
    case (Inl e)
    then show ?thesis using c g1 by simp
  next
    case (Inr ch)
    have "store_grows s (snd (expand_roads self p rds s1))"
      using g1 Cons.IH[of s1] by (rule store_grows_trans)
    then show ?thesis using c Inr
      by (cases "expand_roads self p rds s1") (auto split: sum.splits)
  qed
qed

lemma store_grows_expand: "store_grows s (snd (expand self p s))"
proof (cases "depth self \<ge> depth_limit")
  case True
  then show ?thesis by (simp add: expand_def)
next
  case False
  obtain rds s1 where acts: "actions p (loc self) s = (rds, s1)"
    by (cases "actions p (loc self) s")
  have g1: "store_grows s s1" using store_grows_actions[of s p "loc self"] acts by simp
  have "store_grows s (snd (expand_roads self p rds s1))"
    using g1 store_grows_expand_roads[of s1 self p rds] by (rule store_grows_trans)
  then show ?thesis using acts False by (simp add: expand_def)
qed

subsection \<open>What expanding a node returns\<close>

lemma result_eq:
  "result p l rd s =
     (edge_of (s (rmap p)) l rd, s(rmap p := snd (get_result (s (rmap p)) l rd)))"
  by (simp add: result_def on_map_eq fst_get_result)

lemma action_cost_eq:
  "action_cost p a b s = (cost_of (s (rmap p)) a b, s(rmap p := snd (get (s (rmap p)) a b)))"
  by (simp add: action_cost_def on_map_eq fst_get)

lemma fst_get_result_dict: "fst (get_result_dict m l) = roads_at m l"
  by (simp add: get_result_dict_def setdefault_def roads_at_def split: option.splits)

lemma actions_eq:
  "actions p l s =
     (keys (roads_at (s (rmap p)) l), s(rmap p := snd (get_result_dict (s (rmap p)) l)))"
  by (simp add: actions_def on_map_eq fst_get_result_dict)

lemma child_node_Inr:
  assumes "child_node self p rd hf s = (Inr c, s')"
  shows "edge_of (s (rmap p)) (loc self) rd = Some (loc c) \<and> depth c = Suc (depth self) \<and>
         parent c = Some self \<and>
         h_fun c = (case hf of None \<Rightarrow> h_fun self | Some h \<Rightarrow> Some h)"
  using assms
  by (auto simp: child_node_def result_eq action_cost_eq Let_def Node_init_def
      split: option.splits prod.splits sum.splits)

lemma expand_roads_Inr:
  "expand_roads self p rds s = (Inr cs, s') \<Longrightarrow>
   map (\<lambda>c. Some (loc c)) cs = map (edge_of (s (rmap p)) (loc self)) rds \<and>
   (\<forall>c \<in> set cs. depth c = Suc (depth self) \<and> parent c = Some self \<and> h_fun c = h_fun self)"
proof (induction rds arbitrary: s cs)
  case Nil
  then show ?case by simp
next
  case (Cons rd rds)
  from Cons.prems obtain c s1 cs1 where
    c: "child_node self p rd None s = (Inr c, s1)" and
    r: "expand_roads self p rds s1 = (Inr cs1, s')" and cs: "cs = c # cs1"
    by (auto split: prod.splits sum.splits)
  note cn = child_node_Inr[OF c]
  note ih = Cons.IH[OF r]
  have "store_grows s s1" using store_grows_child_node[of s self p rd None] c by simp
  then have "edge_of (s1 (rmap p)) = edge_of (s (rmap p))"
    by (intro agree_edge_of store_grows_agree)
  then show ?case using cn ih cs by auto
qed

lemma map_filter_all_Some:
  "map (\<lambda>c. Some (g c)) cs = map f xs \<Longrightarrow> List.map_filter f xs = map g cs"
proof (induction xs arbitrary: cs)
  case Nil
  then show ?case by (simp add: map_filter_simps)
next
  case (Cons x xs)
  then obtain c cs' where c: "cs = c # cs'" by (cases cs) auto
  then have fx: "f x = Some (g c)" and r: "map (\<lambda>c. Some (g c)) cs' = map f xs"
    using Cons.prems by simp_all
  show ?case using Cons.IH[OF r] fx c by (simp add: map_filter_simps)
qed

lemma expand_Inr:
  assumes "expand self p s = (Inr cs, s')"
  shows "(if depth self \<ge> depth_limit then cs = []
          else map loc cs = targets (s (rmap p)) (loc self)) \<and>
         (\<forall>c \<in> set cs. depth c = Suc (depth self) \<and> parent c = Some self \<and> h_fun c = h_fun self)"
proof (cases "depth self \<ge> depth_limit")
  case True
  then show ?thesis using assms by (simp add: expand_def)
next
  case False
  define m where "m = s (rmap p)"
  define s1 where "s1 = s(rmap p := snd (get_result_dict m (loc self)))"
  have e: "expand_roads self p (keys (roads_at m (loc self))) s1 = (Inr cs, s')"
    using assms False by (simp add: expand_def actions_eq m_def s1_def)
  note er = expand_roads_Inr[OF e]
  have "edge_of (s1 (rmap p)) = edge_of m"
    by (simp add: s1_def snd_get_result_dict[of m "loc self" undefined])
  then have eo: "edge_of (s1 (rmap p)) (loc self) = dict_get (roads_at m (loc self))"
    by (simp add: fun_eq_iff edge_of_roads_at)
  have "map (\<lambda>c. Some (loc c)) cs
          = map (dict_get (roads_at m (loc self))) (keys (roads_at m (loc self)))"
    using er by (simp add: eo)
  then have "map loc cs = targets m (loc self)"
    unfolding targets_def by (rule map_filter_all_Some[symmetric])
  then show ?thesis using er False by (simp add: m_def)
qed

lemma sum_list_weights:
  "(\<forall>c \<in> set cs. depth c = d) \<Longrightarrow>
   sum_list (map (weight m) cs) = sum_list (map (tree_size (targets m) (depth_limit - d)) (map loc cs))"
  by (induction cs) (auto simp: weight_def)

lemma expand_weight:
  assumes "expand self p s = (Inr cs, s')"
  shows "Suc (sum_list (map (weight (s (rmap p))) cs)) = weight (s (rmap p)) self"
proof (cases "depth self \<ge> depth_limit")
  case True
  then show ?thesis using expand_Inr[OF assms] by (simp add: weight_def)
next
  case False
  then obtain k where k: "depth_limit - depth self = Suc k" "depth_limit - Suc (depth self) = k"
    by (cases "depth_limit - depth self") auto
  from expand_Inr[OF assms] False have
    l: "map loc cs = targets (s (rmap p)) (loc self)"
    and d: "\<forall>c \<in> set cs. depth c = Suc (depth self)"
    by auto
  show ?thesis
    using sum_list_weights[OF d, of "s (rmap p)"] l k by (simp add: weight_def)
qed

lemma expand_agree:
  "expand self p s = (r, s') \<Longrightarrow> agree (s (rmap p)) (s' (rmap p))"
  using store_grows_expand[of s self p] by (simp add: store_grows_agree)

lemma pop_mset:
  assumes "pop fr = Inr (n, fr')"
  shows "mset (map snd (fringe fr)) = add_mset n (mset (map snd (fringe fr')))"
proof -
  from assms obtain item where hp: "heappop tuple_lt (fringe fr) = Inr (item, fringe fr')"
    and n: "n = snd item"
    by (auto simp: pop_def split: if_splits sum.splits)
  from mset_add_map[OF heappop_mset[OF hp], of snd] n show ?thesis by simp
qed

lemma pop_Inr:
  "\<not> is_empty fr \<Longrightarrow> \<exists>n fr'. pop fr = Inr (n, fr') \<and> sort_by fr' = sort_by fr"
  by (auto simp: pop_def is_empty_def heappop_def Let_def)

lemma getitem_loop_contains:
  "list_ex (\<lambda>(_, n). Node_eq n (ObjNode q)) xs \<Longrightarrow> \<exists>v. getitem_loop xs q = Inr v"
  by (induction xs) auto

lemma replace_condition_False: "replace_condition fr child = Inr False"
proof (cases "contains fr child")
  case True
  then obtain v where "Frontier_getitem fr child = Inr v"
    using getitem_loop_contains[of child "fringe fr"]
    by (auto simp: contains_def Frontier_contains_def Frontier_getitem_def)
  then show ?thesis using True by (simp add: replace_condition_def)
next
  case False
  then show ?thesis by (simp add: replace_condition_def)
qed

lemma handle_child_fringe:
  assumes "handle_child pol rc (fr, rs) c = Inr (fr', rs')"
  shows "(fr' = fr \<or> fr' = add fr c) \<and> (rs' = rs \<or> rs' = rs @ [c])"
proof (cases pol)
  case Visit
  then show ?thesis using assms by (auto simp: visit_child_def split: if_splits)
next
  case Replace
  then show ?thesis using assms
    by (auto simp: replace_child_def replace_condition_False split: if_splits)
qed

lemma handle_child_total: "\<exists>st'. handle_child pol rc st c = Inr st'"
  by (cases pol; cases st)
     (auto simp: visit_child_def replace_child_def replace_condition_False)

lemma for_children_total: "\<exists>st'. for_children pol rc st cs = Inr st'"
proof (induction cs arbitrary: st)
  case Nil
  then show ?case by simp
next
  case (Cons c cs)
  obtain st1 where "handle_child pol rc st c = Inr st1" using handle_child_total by blast
  then show ?case using Cons.IH[of st1] by simp
qed

lemma for_children_fringe:
  "for_children pol rc (fr, rs) cs = Inr (fr', rs') \<Longrightarrow>
   mset (map snd (fringe fr')) \<subseteq># mset (map snd (fringe fr)) + mset cs \<and>
   sort_by fr' = sort_by fr \<and> set rs' \<subseteq> set rs \<union> set cs"
proof (induction cs arbitrary: fr rs)
  case Nil
  then show ?case by simp
next
  case (Cons c cs)
  from Cons.prems obtain fr1 rs1 where
    h: "handle_child pol rc (fr, rs) c = Inr (fr1, rs1)" and
    f: "for_children pol rc (fr1, rs1) cs = Inr (fr', rs')"
    by (auto split: sum.splits)
  from handle_child_fringe[OF h] have
    1: "mset (map snd (fringe fr1)) \<subseteq># add_mset c (mset (map snd (fringe fr)))"
    and 2: "sort_by fr1 = sort_by fr" and 3: "set rs1 \<subseteq> insert c (set rs)"
    using mset_add_map[OF fringe_add_mset[of fr c], of snd] by auto
  from Cons.IH[OF f] have
    4: "mset (map snd (fringe fr')) \<subseteq># mset (map snd (fringe fr1)) + mset cs"
    and 5: "sort_by fr' = sort_by fr1" and 6: "set rs' \<subseteq> set rs1 \<union> set cs" by auto
  have "mset (map snd (fringe fr1)) + mset cs \<subseteq># add_mset c (mset (map snd (fringe fr))) + mset cs"
    using 1 by (simp add: subset_mset.add_right_mono)
  then have "mset (map snd (fringe fr')) \<subseteq># add_mset c (mset (map snd (fringe fr))) + mset cs"
    using 4 by (rule subset_mset.order_trans[rotated])
  then show ?case using 2 3 5 6 by auto
qed

lemma sum_mset_subset_le:
  fixes f :: "'a \<Rightarrow> nat"
  assumes "A \<subseteq># B"
  shows "sum_mset (image_mset f A) \<le> sum_mset (image_mset f B)"
proof -
  obtain C where "B = A + C" using assms by (auto simp: mset_subset_eq_exists_conv)
  then show ?thesis by simp
qed

text \<open>
  A turn of the loop of a search takes a node out of the frontier and puts back at most its
  children: the sizes of the search trees below the nodes of the frontier add up to less.
\<close>

lemma turn_weight:
  assumes e: "expand node p s = (Inr children, s1)"
    and sub: "F' \<subseteq># F1 + mset children"
  shows "sum_mset (image_mset (weight (s1 (rmap p))) F')
           < sum_mset (image_mset (weight (s (rmap p))) (add_mset node F1))"
proof -
  let ?w = "weight (s (rmap p))"
  have w1: "weight (s1 (rmap p)) = ?w" using expand_agree[OF e] by (rule agree_weight)
  have "sum_mset (image_mset ?w F') \<le> sum_mset (image_mset ?w (F1 + mset children))"
    using sub by (rule sum_mset_subset_le)
  also have "\<dots> = sum_mset (image_mset ?w F1) + sum_list (map ?w children)"
    by (simp add: sum_mset_sum_list[symmetric] del: sum_mset_sum_list)
  finally have le: "sum_mset (image_mset ?w F')
      \<le> sum_mset (image_mset ?w F1) + sum_list (map ?w children)" .
  have "Suc (sum_list (map ?w children)) = ?w node" using expand_weight[OF e] .
  then show ?thesis using le by (simp add: w1)
qed

lemma search_step_weight:
  assumes p: "pop fr = Inr (node, fr1)"
    and e: "expand node p s = (Inr children, s1)"
    and f: "for_children pol rc (fr1, rs) children = Inr (fr', rs')"
  shows "fringe_weight (s1 (rmap p)) fr' < fringe_weight (s (rmap p)) fr"
proof -
  have sub: "mset (map snd (fringe fr')) \<subseteq># mset (map snd (fringe fr1)) + mset children"
    using for_children_fringe[OF f] by blast
  show ?thesis
    using turn_weight[OF e sub] pop_mset[OF p] by (simp add: fringe_weight_def)
qed

text \<open>
  The \<^verbatim>\<open>while\<close> loop of \<^verbatim>\<open>ucost.py\<close>, \<^verbatim>\<open>greedy.py\<close> and \<^verbatim>\<open>astar.py\<close>: pop a node, test the
  goal, expand and hand every child to the loop body of the search.
\<close>

function search_loop ::
  "child_policy \<Rightarrow> bool \<Rightarrow> RouteProblem \<Rightarrow> search_state \<Rightarrow> store \<Rightarrow> (py_error + Node option) \<times> store"
  where
  "search_loop pol repeat_check p (frontier, reachedNodes) s =
     (if is_empty frontier then (Inr None, s)
      else (case pop frontier of
              Inl e \<Rightarrow> (Inl e, s)
            | Inr (node, frontier1) \<Rightarrow>
                if is_goal p (loc node) then (Inr (Some node), s)
                else (case expand node p s of
                        (Inl e, s1) \<Rightarrow> (Inl e, s1)
                      | (Inr children, s1) \<Rightarrow>
                          (case for_children pol repeat_check (frontier1, reachedNodes) children of
                             Inl e \<Rightarrow> (Inl e, s1)
                           | Inr st1 \<Rightarrow> search_loop pol repeat_check p st1 s1))))"
  by pat_completeness auto
termination
proof (relation "measure (\<lambda>(pol, rc, p, st, s). fringe_weight (s (rmap p)) (fst st))", goal_cases)
  case 1
  show ?case by simp
next
  case (2 pol repeat_check p frontier reachedNodes s b node frontier1 r s1 children st1)
  have a: "pop frontier = Inr (node, frontier1)" using 2(2,3) by simp
  have b: "expand node p s = (Inr children, s1)" using 2(5,6) by (metis)
  have c: "for_children pol repeat_check (frontier1, reachedNodes) children = Inr (fst st1, snd st1)"
    using 2(7) by simp
  show ?case using search_step_weight[OF a b c] by simp
qed

declare search_loop.simps [simp del]

text \<open>
  The loop body of \<^verbatim>\<open>bfs.py\<close> and \<^verbatim>\<open>dfs.py\<close> over the children of the popped node, on the
  queue or stack of these two searches.
\<close>

definition visit_child0 ::
  "bool \<Rightarrow> Frontier0 \<times> Node list \<Rightarrow> Node \<Rightarrow> Frontier0 \<times> Node list" where
  "visit_child0 repeat_check st node =
     (case st of (queue, visited) \<Rightarrow>
        if repeat_check then
          (if \<not> node_in node visited then (add0 queue node, visited @ [node])
           else (queue, visited))
        else (add0 queue node, visited))"

definition queue_weight :: "RoadMap \<Rightarrow> Frontier0 \<Rightarrow> nat" where
  "queue_weight m fr = sum_mset (image_mset (weight m) (mset (queued fr)))"

lemma visit_child0_cases:
  "visit_child0 rc (fr, vs) c = (fr', vs') \<Longrightarrow>
   (fr' = fr \<or> fr' = add0 fr c) \<and> (vs' = vs \<or> vs' = vs @ [c])"
  by (auto simp: visit_child0_def split: if_splits)

lemma visit_children0_queued:
  "foldl (visit_child0 rc) (fr, vs) cs = (fr', vs') \<Longrightarrow>
   mset (queued fr') \<subseteq># mset (queued fr) + mset cs"
proof (induction cs arbitrary: fr vs)
  case Nil
  then show ?case by simp
next
  case (Cons c cs)
  obtain fr1 vs1 where v: "visit_child0 rc (fr, vs) c = (fr1, vs1)"
    by (cases "visit_child0 rc (fr, vs) c")
  from visit_child0_cases[OF v] have
    1: "mset (queued fr1) \<subseteq># add_mset c (mset (queued fr))"
    by (auto simp: add0_def)
  from Cons.prems v have "foldl (visit_child0 rc) (fr1, vs1) cs = (fr', vs')" by simp
  from Cons.IH[OF this] have 4: "mset (queued fr') \<subseteq># mset (queued fr1) + mset cs" .
  have "mset (queued fr1) + mset cs \<subseteq># add_mset c (mset (queued fr)) + mset cs"
    using 1 by (simp add: subset_mset.add_right_mono)
  then have "mset (queued fr') \<subseteq># add_mset c (mset (queued fr)) + mset cs"
    using 4 by (rule subset_mset.order_trans[rotated])
  then show ?case by simp
qed

lemma pop0_mset:
  assumes "pop0 fr = Inr (n, fr')"
  shows "mset (queued fr) = add_mset n (mset (queued fr'))"
proof (cases "lifo fr")
  case True
  then have q: "queued fr \<noteq> []" "n = last (queued fr)" "queued fr' = butlast (queued fr)"
    using assms by (auto simp: pop0_def split: if_splits)
  have "mset (queued fr) = mset (butlast (queued fr) @ [last (queued fr)])"
    using q(1) by simp
  also have "\<dots> = add_mset (last (queued fr)) (mset (butlast (queued fr)))" by simp
  finally show ?thesis using q by simp
next
  case False
  then have q: "queued fr \<noteq> []" "n = hd (queued fr)" "queued fr' = tl (queued fr)"
    using assms by (auto simp: pop0_def split: if_splits)
  have "mset (queued fr) = mset (hd (queued fr) # tl (queued fr))"
    using q(1) by simp
  also have "\<dots> = add_mset (hd (queued fr)) (mset (tl (queued fr)))" by simp
  finally show ?thesis using q by simp
qed

lemma pop0_Inr: "\<not> is_empty0 fr \<Longrightarrow> \<exists>n fr'. pop0 fr = Inr (n, fr')"
  by (simp add: pop0_def is_empty0_def)

lemma queue_step_weight:
  assumes p: "pop0 fr = Inr (node, fr1)"
    and e: "expand node p s = (Inr children, s1)"
    and f: "foldl (visit_child0 rc) (fr1, vs) children = (fr', vs')"
  shows "queue_weight (s1 (rmap p)) fr' < queue_weight (s (rmap p)) fr"
  using turn_weight[OF e visit_children0_queued[OF f]] pop0_mset[OF p]
  by (simp add: queue_weight_def)

text \<open>
  The \<^verbatim>\<open>while\<close> loop of \<^verbatim>\<open>bfs.py\<close> and \<^verbatim>\<open>dfs.py\<close>, with the names of \<^verbatim>\<open>bfs.py\<close>; in
  \<^verbatim>\<open>dfs.py\<close> the frontier is called \<^verbatim>\<open>stack\<close>.
\<close>

function search_loop0 ::
  "bool \<Rightarrow> RouteProblem \<Rightarrow> Frontier0 \<times> Node list \<Rightarrow> store \<Rightarrow> (py_error + Node option) \<times> store"
  where
  "search_loop0 repeat_check problem (queue, visited) s =
     (if is_empty0 queue then (Inr None, s)
      else (case pop0 queue of
              Inl e \<Rightarrow> (Inl e, s)
            | Inr (branch, queue1) \<Rightarrow>
                if is_goal problem (loc branch) then (Inr (Some branch), s)
                else (case expand branch problem s of
                        (Inl e, s1) \<Rightarrow> (Inl e, s1)
                      | (Inr children, s1) \<Rightarrow>
                          search_loop0 repeat_check problem
                            (foldl (visit_child0 repeat_check) (queue1, visited) children) s1)))"
  by pat_completeness auto
termination
proof (relation "measure (\<lambda>(rc, p, st, s). queue_weight (s (rmap p)) (fst st))", goal_cases)
  case 1
  show ?case by simp
next
  case (2 repeat_check problem queue visited s b branch queue1 r s1 children)
  have a: "pop0 queue = Inr (branch, queue1)" using 2(2,3) by simp
  have b: "expand branch problem s = (Inr children, s1)" using 2(5,6) by (metis)
  obtain fr' vs' where
    c: "foldl (visit_child0 repeat_check) (queue1, visited) children = (fr', vs')"
    by (cases "foldl (visit_child0 repeat_check) (queue1, visited) children")
  show ?case using queue_step_weight[OF a b c] c by simp
qed

declare search_loop0.simps [simp del]

text \<open>
  Modelled from the spec: \<^verbatim>\<open>bfs.py\<close> and \<^verbatim>\<open>dfs.py\<close> import \<^verbatim>\<open>Node\<close> and \<^verbatim>\<open>Frontier\<close> from
  the module \<^verbatim>\<open>route\<close> of Assignment 0, which is not among the sources. Their frontier is
  the queue and the stack modelled above. The spec describes one search node and one
  problem for the five searches, those of \<^verbatim>\<open>route.py\<close>: the nodes and the problem of the
  two searches are taken from there (\<open>Node_init\<close>, \<open>expand\<close>, \<open>is_goal\<close>). The two
  functions themselves follow \<^verbatim>\<open>bfs.py\<close> and \<^verbatim>\<open>dfs.py\<close>.
\<close>

definition BFS :: "RouteProblem \<Rightarrow> bool \<Rightarrow> store \<Rightarrow> (py_error + Node option) \<times> store" where
  "BFS problem repeat_check s =
     (let parent = Node_init (start problem) None None 0 0 None
      in if is_goal_node problem parent then (Inr (Some parent), s)
         else search_loop0 repeat_check problem (Frontier0_init parent False, [parent]) s)"

text \<open>
  Modelled from the spec: \<^verbatim>\<open>dfs.py\<close> differs from \<^verbatim>\<open>bfs.py\<close> in its frontier only,
  which it builds as \<^verbatim>\<open>Frontier(parent, True)\<close>, the stack modelled above.
\<close>

definition DFS :: "RouteProblem \<Rightarrow> bool \<Rightarrow> store \<Rightarrow> (py_error + Node option) \<times> store" where
  "DFS problem repeat_check s =
     (let parent = Node_init (start problem) None None 0 0 None
      in if is_goal_node problem parent then (Inr (Some parent), s)
         else search_loop0 repeat_check problem (Frontier0_init parent True, [parent]) s)"

text \<open>The three searches of Assignment 1, on the priority queue of \<^verbatim>\<open>route.py\<close>.\<close>

definition uniform_cost_search ::
  "RouteProblem \<Rightarrow> bool \<Rightarrow> store \<Rightarrow> (py_error + Node option) \<times> store" where
  "uniform_cost_search problem repeat_check s =
     (let node = Node_init (start problem) None None 0 0 None
      in if is_goal problem (loc node) then (Inr (Some node), s)
         else search_loop Replace repeat_check problem
                (Frontier_init node (SortStr ''g''), [node]) s)"

definition greedy_search ::
  "RouteProblem \<Rightarrow> HeuristicFunction option \<Rightarrow> bool \<Rightarrow> store \<Rightarrow> (py_error + Node option) \<times> store"
  where
  "greedy_search problem h repeat_check s =
     (let node = Node_init (start problem) None None 0 0 h
      in if is_goal problem (loc node) then (Inr (Some node), s)
         else search_loop Visit repeat_check problem
                (Frontier_init node (SortStr ''h''), [node]) s)"

definition a_star_search ::
  "RouteProblem \<Rightarrow> HeuristicFunction option \<Rightarrow> bool \<Rightarrow> store \<Rightarrow> (py_error + Node option) \<times> store"
  where
  "a_star_search problem h repeat_check s =
     (let node = Node_init (start problem) None None 0 0 h
      in if is_goal problem (loc node) then (Inr (Some node), s)
         else search_loop Replace repeat_check problem
                (Frontier_init node (SortStr ''f''), [node]) s)"

text \<open>
  A location is reachable from another when a sequence of named roads leads there. The
  heuristic of a search evaluates at a location when there is none, or when its
  \<^verbatim>\<open>efficientGas\<close> is not zero and the location and its goal have coordinates in the map
  of the heuristic function.
\<close>

definition road_step :: "RoadMap \<Rightarrow> location \<Rightarrow> location \<Rightarrow> bool" where
  "road_step m a b = (\<exists>r. edge_of m a r = Some b)"

definition reachable :: "RoadMap \<Rightarrow> location \<Rightarrow> location \<Rightarrow> bool" where
  "reachable m a b = (road_step m)\<^sup>*\<^sup>* a b"

definition heuristic_ok :: "HeuristicFunction option \<Rightarrow> store \<Rightarrow> location \<Rightarrow> bool" where
  "heuristic_ok h s l =
     (case h of
        None \<Rightarrow> True
      | Some hf \<Rightarrow>
          efficientGas hf \<noteq> 0 \<and> has_coordinates (s (h_map hf)) l \<and>
          (case h_goal hf of None \<Rightarrow> False | Some g \<Rightarrow> has_coordinates (s (h_map hf)) g))"

lemma reachable_refl [simp]: "reachable m a a"
  by (simp add: reachable_def)

lemma reachable_step: "reachable m a b \<Longrightarrow> edge_of m b r = Some c \<Longrightarrow> reachable m a c"
  unfolding reachable_def road_step_def[abs_def] by (auto intro: rtranclp.rtrancl_into_rtrancl)

lemma heuristic_ok_grows: "store_grows s s' \<Longrightarrow> heuristic_ok h s l \<Longrightarrow> heuristic_ok h s' l"
  by (auto simp: heuristic_ok_def store_grows_def split: option.splits
      intro: map_grows_has_coordinates)

lemma h_cost_ok:
  "heuristic_ok (Some hf) s l \<Longrightarrow> \<exists>v. h_cost hf (Some l) s = (Inr v, s)"
  by (auto simp: heuristic_ok_def h_cost_def on_map_def euclidean_distance_has
      split: option.splits)

lemma child_node_ok:
  assumes e: "edge_of (s (rmap p)) (loc self) rd = Some cl"
    and c: "cost_of (s (rmap p)) (loc self) cl = Some cst"
    and h: "heuristic_ok (h_fun self) s cl"
  shows "\<exists>ch s'. child_node self p rd None s = (Inr ch, s')"
proof -
  define s1 where "s1 = s(rmap p := snd (get_result (s (rmap p)) (loc self) rd))"
  have r: "result p (loc self) rd s = (Some cl, s1)" using e by (simp add: result_eq s1_def)
  have g1: "store_grows s s1" using store_grows_result[of s p "loc self" rd] r by simp
  have c1: "cost_of (s1 (rmap p)) (loc self) cl = Some cst" using c by (simp add: s1_def)
  define s2 where "s2 = s1(rmap p := snd (get (s1 (rmap p)) (loc self) cl))"
  have ac: "action_cost p (loc self) cl s1 = (Some cst, s2)"
    using c1 by (simp add: action_cost_eq s2_def)
  have g2: "store_grows s s2"
    using g1 store_grows_action_cost[of s1 p "loc self" cl] ac by (auto intro: store_grows_trans)
  show ?thesis
  proof (cases "h_fun self")
    case None
    then show ?thesis using r ac by (simp add: child_node_def Let_def)
  next
    case (Some hf)
    have "heuristic_ok (Some hf) s2 cl" using h Some heuristic_ok_grows[OF g2] by simp
    then obtain v where "h_cost hf (Some cl) s2 = (Inr v, s2)" using h_cost_ok by blast
    then show ?thesis using r ac Some by (simp add: child_node_def Let_def)
  qed
qed

lemma expand_roads_ok:
  "(\<forall>rd \<in> set rds. \<exists>cl cst. edge_of (s (rmap p)) (loc self) rd = Some cl \<and>
        cost_of (s (rmap p)) (loc self) cl = Some cst \<and> heuristic_ok (h_fun self) s cl) \<Longrightarrow>
   \<exists>cs s'. expand_roads self p rds s = (Inr cs, s')"
proof (induction rds arbitrary: s)
  case Nil
  then show ?case by simp
next
  case (Cons rd rds)
  from Cons.prems obtain cl cst where "edge_of (s (rmap p)) (loc self) rd = Some cl"
    "cost_of (s (rmap p)) (loc self) cl = Some cst" "heuristic_ok (h_fun self) s cl" by auto
  from child_node_ok[OF this] obtain ch s1 where
    ch: "child_node self p rd None s = (Inr ch, s1)" by blast
  have g: "store_grows s s1" using store_grows_child_node[of s self p rd None] ch by simp
  have a: "agree (s (rmap p)) (s1 (rmap p))" using g by (rule store_grows_agree)
  have eo: "edge_of (s1 (rmap p)) = edge_of (s (rmap p))" using a by (rule agree_edge_of)
  have co: "cost_of (s1 (rmap p)) = cost_of (s (rmap p))" using a by (simp add: agree_def)
  have "\<forall>rd \<in> set rds. \<exists>cl cst. edge_of (s1 (rmap p)) (loc self) rd = Some cl \<and>
        cost_of (s1 (rmap p)) (loc self) cl = Some cst \<and> heuristic_ok (h_fun self) s1 cl"
    using Cons.prems heuristic_ok_grows[OF g] by (simp add: eo co) blast
  from Cons.IH[OF this] obtain cs s' where "expand_roads self p rds s1 = (Inr cs, s')" by blast
  then show ?case using ch by simp
qed

lemma expand_ok:
  assumes costs: "roads_have_costs (s (rmap p))"
    and h: "\<forall>r cl. edge_of (s (rmap p)) (loc self) r = Some cl \<longrightarrow> heuristic_ok (h_fun self) s cl"
  shows "\<exists>cs s'. expand self p s = (Inr cs, s')"
proof (cases "depth self \<ge> depth_limit")
  case True
  then show ?thesis by (simp add: expand_def)
next
  case False
  define m where "m = s (rmap p)"
  define s1 where "s1 = s(rmap p := snd (get_result_dict m (loc self)))"
  have acts: "actions p (loc self) s = (keys (roads_at m (loc self)), s1)"
    by (simp add: actions_eq m_def s1_def)
  have g: "store_grows s s1" using store_grows_actions[of s p "loc self"] acts by simp
  have a: "agree m (s1 (rmap p))" unfolding m_def using g by (rule store_grows_agree)
  have eo: "edge_of (s1 (rmap p)) = edge_of m" using a by (rule agree_edge_of)
  have co: "cost_of (s1 (rmap p)) = cost_of m" using a by (simp add: agree_def)
  have "\<forall>rd \<in> set (keys (roads_at m (loc self))).
      \<exists>cl cst. edge_of (s1 (rmap p)) (loc self) rd = Some cl \<and>
        cost_of (s1 (rmap p)) (loc self) cl = Some cst \<and> heuristic_ok (h_fun self) s1 cl"
  proof
    fix rd assume "rd \<in> set (keys (roads_at m (loc self)))"
    then obtain cl where cl: "edge_of m (loc self) rd = Some cl"
      using dict_get_None_iff[of "roads_at m (loc self)" rd]
      by (auto simp: edge_of_roads_at)
    then obtain cst where cst: "cost_of m (loc self) cl = Some cst"
      using costs unfolding roads_have_costs_def m_def by blast
    have "heuristic_ok (h_fun self) s1 cl"
      using h cl heuristic_ok_grows[OF g] by (simp add: m_def)
    then show "\<exists>cl cst. edge_of (s1 (rmap p)) (loc self) rd = Some cl \<and>
        cost_of (s1 (rmap p)) (loc self) cl = Some cst \<and> heuristic_ok (h_fun self) s1 cl"
      using cl cst by (simp add: eo co)
  qed
  from expand_roads_ok[OF this] obtain cs s' where
    "expand_roads self p (keys (roads_at m (loc self))) s1 = (Inr cs, s')" by auto
  then show ?thesis using acts False by (simp add: expand_def)
qed

subsection \<open>The loops when the goal is out of reach\<close>

lemma in_map_filterD:
  "x \<in> set (List.map_filter f xs) \<Longrightarrow> \<exists>y \<in> set xs. f y = Some x"
  by (auto simp: List.map_filter_def)

lemma pop_fringe_nodes:
  assumes "pop fr = Inr (n, fr')"
  shows "n \<in> snd ` set (fringe fr) \<and> snd ` set (fringe fr') \<subseteq> snd ` set (fringe fr)"
proof -
  have "set (map snd (fringe fr)) = insert n (set (map snd (fringe fr')))"
    using pop_mset[OF assms] by (rule mset_add_set)
  then show ?thesis by auto
qed

text \<open>
  In a store grown from \<open>s0\<close>, a node at a location reachable in the map of the problem
  expands without error when the roads have costs and the heuristic evaluates at every
  reachable location; its children are at reachable locations and carry its heuristic.
\<close>

lemma expand_in_reach:
  assumes costs: "roads_have_costs (s0 (rmap p))"
    and hok: "\<forall>l. reachable (s0 (rmap p)) a l \<longrightarrow> heuristic_ok h s0 l"
    and grows: "store_grows s0 s"
    and nr: "reachable (s0 (rmap p)) a (loc node)" and nh: "h_fun node = h"
  shows "\<exists>cs s1. expand node p s = (Inr cs, s1) \<and> store_grows s0 s1 \<and>
           (\<forall>c \<in> set cs. reachable (s0 (rmap p)) a (loc c) \<and> h_fun c = h)"
proof -
  define m0 where "m0 = s0 (rmap p)"
  have ag: "agree m0 (s (rmap p))" unfolding m0_def using grows by (rule store_grows_agree)
  have eo: "edge_of (s (rmap p)) = edge_of m0" using ag by (rule agree_edge_of)
  have co: "cost_of (s (rmap p)) = cost_of m0" using ag by (simp add: agree_def)
  have costs_s: "roads_have_costs (s (rmap p))"
    using costs roads_have_costs_cong[OF eo co] by (simp add: m0_def)
  have hp: "\<forall>r cl. edge_of (s (rmap p)) (loc node) r = Some cl
        \<longrightarrow> heuristic_ok (h_fun node) s cl"
  proof (intro allI impI)
    fix r cl assume "edge_of (s (rmap p)) (loc node) r = Some cl"
    then have "edge_of m0 (loc node) r = Some cl" by (simp add: eo)
    then have "reachable m0 a cl" using nr unfolding m0_def by (rule reachable_step[rotated])
    then have "heuristic_ok h s0 cl" using hok by (simp add: m0_def)
    then show "heuristic_ok (h_fun node) s cl" using nh heuristic_ok_grows[OF grows] by simp
  qed
  from expand_ok[OF costs_s hp] obtain cs s1 where ex: "expand node p s = (Inr cs, s1)"
    by blast
  have g1: "store_grows s0 s1"
    using grows store_grows_expand[of s node p] ex by (auto intro: store_grows_trans)
  note ei = expand_Inr[OF ex]
  have e_if: "if depth node \<ge> depth_limit then cs = []
              else map loc cs = targets (s (rmap p)) (loc node)" using ei by blast
  have e_cs: "\<forall>c \<in> set cs. depth c = Suc (depth node) \<and> parent c = Some node
                \<and> h_fun c = h_fun node" using ei by blast
  have cs_ok: "\<forall>c \<in> set cs. reachable (s0 (rmap p)) a (loc c) \<and> h_fun c = h"
  proof
    fix c assume c: "c \<in> set cs"
    have "\<not> depth node \<ge> depth_limit"
    proof
      assume "depth node \<ge> depth_limit"
      then have "cs = []" using e_if by simp
      then show False using c by simp
    qed
    then have "map loc cs = targets (s (rmap p)) (loc node)" using e_if by simp
    then have "set (map loc cs) = set (targets (s (rmap p)) (loc node))" by simp
    then have "loc c \<in> set (targets (s (rmap p)) (loc node))" using c by auto
    then obtain r where "edge_of (s (rmap p)) (loc node) r = Some (loc c)"
      unfolding targets_def edge_of_roads_at by (blast dest: in_map_filterD)
    then have "edge_of m0 (loc node) r = Some (loc c)" by (simp add: eo)
    then have "reachable m0 a (loc c)" using nr unfolding m0_def by (rule reachable_step[rotated])
    then show "reachable (s0 (rmap p)) a (loc c) \<and> h_fun c = h"
      using e_cs c nh by (simp add: m0_def)
  qed
  show ?thesis using ex g1 cs_ok by blast
qed

lemma search_loop_None:
  assumes costs: "roads_have_costs (s0 r0)"
    and unreach: "\<forall>l. reachable (s0 r0) a l \<longrightarrow> g \<noteq> Some l"
    and hok: "\<forall>l. reachable (s0 r0) a l \<longrightarrow> heuristic_ok h s0 l"
  shows "rmap p = r0 \<Longrightarrow> goal p = g \<Longrightarrow> store_grows s0 s \<Longrightarrow>
     (\<forall>n \<in> snd ` set (fringe fr). reachable (s0 r0) a (loc n) \<and> h_fun n = h) \<Longrightarrow>
     fst (search_loop pol rc p (fr, rs) s) = Inr None"
proof (induction pol rc p "(fr, rs)" s arbitrary: fr rs rule: search_loop.induct)
  case (1 pol rc p fr rs s)
  note rp = "1.prems"(1) and gl = "1.prems"(2) and grows = "1.prems"(3)
    and nodes = "1.prems"(4)
  show ?case
  proof (cases "is_empty fr")
    case True
    then show ?thesis by (subst search_loop.simps) simp
  next
    case False
    then obtain node fr1 where pp: "pop fr = Inr (node, fr1)" using pop_Inr by blast
    from pop_fringe_nodes[OF pp] have
      nin: "node \<in> snd ` set (fringe fr)"
      and fsub: "snd ` set (fringe fr1) \<subseteq> snd ` set (fringe fr)" by blast+
    have nr: "reachable (s0 (rmap p)) a (loc node)" and nh: "h_fun node = h"
      using nodes nin rp by auto
    have fr1: "\<forall>n \<in> snd ` set (fringe fr1). reachable (s0 r0) a (loc n) \<and> h_fun n = h"
      using nodes fsub by blast
    have ng: "\<not> is_goal p (loc node)" using unreach nr gl rp by (auto simp: is_goal_def)
    have costs_p: "roads_have_costs (s0 (rmap p))" using costs rp by simp
    have hok_p: "\<forall>l. reachable (s0 (rmap p)) a l \<longrightarrow> heuristic_ok h s0 l"
      using hok rp by simp
    from expand_in_reach[OF costs_p hok_p grows nr nh] obtain cs s1 where
      ex: "expand node p s = (Inr cs, s1)" and g1: "store_grows s0 s1"
      and cs_ok: "\<forall>c \<in> set cs. reachable (s0 r0) a (loc c) \<and> h_fun c = h"
      using rp by auto
    obtain st' where "for_children pol rc (fr1, rs) cs = Inr st'"
      using for_children_total[of pol rc "(fr1, rs)" cs] by blast
    then obtain fr' rs' where fc: "for_children pol rc (fr1, rs) cs = Inr (fr', rs')"
      by (cases st') simp
    have "mset (map snd (fringe fr')) \<subseteq># mset (map snd (fringe fr1)) + mset cs"
      using for_children_fringe[OF fc] by blast
    then have "set_mset (mset (map snd (fringe fr')))
        \<subseteq> set_mset (mset (map snd (fringe fr1)) + mset cs)" by (rule set_mset_mono)
    then have sub: "set (map snd (fringe fr')) \<subseteq> set (map snd (fringe fr1)) \<union> set cs"
      by simp
    have nodes': "\<forall>n \<in> snd ` set (fringe fr'). reachable (s0 r0) a (loc n) \<and> h_fun n = h"
    proof
      fix n assume "n \<in> snd ` set (fringe fr')"
      then have "n \<in> snd ` set (fringe fr1) \<or> n \<in> set cs" using sub by auto
      then show "reachable (s0 r0) a (loc n) \<and> h_fun n = h" using fr1 cs_ok by blast
    qed
    have "fst (search_loop pol rc p (fr', rs') s1) = Inr None"
      by (rule "1.hyps"[OF False pp refl ng ex[symmetric] refl fc rp gl g1 nodes'])
    then show ?thesis using False pp ng ex fc by (subst search_loop.simps) simp
  qed
qed

lemma search_loop0_None:
  assumes costs: "roads_have_costs (s0 r0)"
    and unreach: "\<forall>l. reachable (s0 r0) a l \<longrightarrow> g \<noteq> Some l"
  shows "rmap p = r0 \<Longrightarrow> goal p = g \<Longrightarrow> store_grows s0 s \<Longrightarrow>
     (\<forall>n \<in> set (queued fr). reachable (s0 r0) a (loc n) \<and> h_fun n = None) \<Longrightarrow>
     fst (search_loop0 rc p (fr, vs) s) = Inr None"
proof (induction rc p "(fr, vs)" s arbitrary: fr vs rule: search_loop0.induct)
  case (1 rc p fr vs s)
  note rp = "1.prems"(1) and gl = "1.prems"(2) and grows = "1.prems"(3)
    and nodes = "1.prems"(4)
  show ?case
  proof (cases "is_empty0 fr")
    case True
    then show ?thesis by (subst search_loop0.simps) simp
  next
    case False
    then obtain node fr1 where pp: "pop0 fr = Inr (node, fr1)" using pop0_Inr by blast
    have "set (queued fr) = insert node (set (queued fr1))"
      using pop0_mset[OF pp] by (rule mset_add_set)
    then have nin: "node \<in> set (queued fr)" and fsub: "set (queued fr1) \<subseteq> set (queued fr)"
      by auto
    have nr: "reachable (s0 (rmap p)) a (loc node)" and nh: "h_fun node = None"
      using nodes nin rp by auto
    have fr1: "\<forall>n \<in> set (queued fr1). reachable (s0 r0) a (loc n) \<and> h_fun n = None"
      using nodes fsub by blast
    have ng: "\<not> is_goal p (loc node)" using unreach nr gl rp by (auto simp: is_goal_def)
    have costs_p: "roads_have_costs (s0 (rmap p))" using costs rp by simp
    have hok_p: "\<forall>l. reachable (s0 (rmap p)) a l \<longrightarrow> heuristic_ok None s0 l"
      by (simp add: heuristic_ok_def)
    from expand_in_reach[OF costs_p hok_p grows nr nh] obtain cs s1 where
      ex: "expand node p s = (Inr cs, s1)" and g1: "store_grows s0 s1"
      and cs_ok: "\<forall>c \<in> set cs. reachable (s0 r0) a (loc c) \<and> h_fun c = None"
      using rp by auto
    obtain fr' vs' where fc: "foldl (visit_child0 rc) (fr1, vs) cs = (fr', vs')"
      by (cases "foldl (visit_child0 rc) (fr1, vs) cs")
    have "set_mset (mset (queued fr')) \<subseteq> set_mset (mset (queued fr1) + mset cs)"
      using visit_children0_queued[OF fc] by (rule set_mset_mono)
    then have sub: "set (queued fr') \<subseteq> set (queued fr1) \<union> set cs" by simp
    have nodes': "\<forall>n \<in> set (queued fr'). reachable (s0 r0) a (loc n) \<and> h_fun n = None"
      using sub fr1 cs_ok by blast
    have "fst (search_loop0 rc p (fr', vs') s1) = Inr None"
      by (rule "1.hyps"[OF False pp refl ng ex[symmetric] refl fc rp gl g1 nodes'])
    then show ?thesis using False pp ng ex fc by (subst search_loop0.simps) simp
  qed
qed

lemma Frontier_init_fringe: "fringe (Frontier_init n sb) = [(Node_value n sb, n)]"
  by (simp add: Frontier_init_def)

lemma is_goal_node_False: "\<not> is_goal_node p n"
  by (simp add: is_goal_node_def split: option.splits)

subsection \<open>Road maps for the examples of the searches\<close>

text \<open>
  The round trip between \<open>a\<close> and \<open>b\<close> with a third location \<open>z\<close> at (7, 9), from which
  a road leads to \<open>a\<close> and to which no road leads.
\<close>

definition detour_map :: RoadMap where
  "detour_map =
     add_road (add_road (add_road
       (add_location (add_location (add_location RoadMap_init ''a'' 1 1) ''b'' 4 5) ''z'' 7 9)
       ''a'' ''b'' (Some ''r1'') 2) ''b'' ''a'' (Some ''r2'') 5) ''z'' ''a'' (Some ''r3'') 4"

lemma detour_map_eq:
  "detour_map =
     \<lparr>connection_dict = [(''a'', [(''b'', 2)]), (''b'', [(''a'', 5)]), (''z'', [(''a'', 4)])],
      road_dict = [(''a'', [(''r1'', ''b'')]), (''b'', [(''r2'', ''a'')]), (''z'', [(''r3'', ''a'')])],
      loc_dict = [(''a'', (1, 1)), (''b'', (4, 5)), (''z'', (7, 9))]\<rparr>"
  by (simp add: detour_map_def add_road_def add_location_def RoadMap_init_def setdefault_def)

lemma detour_map_costs: "roads_have_costs detour_map"
  unfolding detour_map_def
  by (intro roads_have_costs_add_road roads_have_costs_add_location roads_have_costs_init)

lemma detour_map_reachable: "reachable detour_map ''a'' l \<Longrightarrow> l = ''a'' \<or> l = ''b''"
  unfolding reachable_def
proof (induction rule: rtranclp_induct)
  case base
  then show ?case by simp
next
  case (step y z)
  then show ?case
    by (auto simp: road_step_def edge_of_def detour_map_eq split: if_splits)
qed

lemma round_trip_map_costs: "roads_have_costs round_trip_map"
  unfolding round_trip_map_def
  by (intro roads_have_costs_add_road roads_have_costs_add_location roads_have_costs_init)

lemma round_trip_map_reachable: "reachable round_trip_map ''a'' l \<Longrightarrow> l = ''a'' \<or> l = ''b''"
  unfolding reachable_def
proof (induction rule: rtranclp_induct)
  case base
  then show ?case by simp
next
  case (step y z)
  then show ?case
    by (auto simp: road_step_def edge_of_def round_trip_map_eq split: if_splits)
qed

lemma costless_road_map_reachable:
  "reachable costless_road_map ''a'' l \<Longrightarrow> l = ''a'' \<or> l = ''b''"
  unfolding reachable_def
proof (induction rule: rtranclp_induct)
  case base
  then show ?case by simp
next
  case (step y z)
  then show ?case
    by (auto simp: road_step_def edge_of_def costless_road_map_def split: if_splits)
qed

text \<open>
  The problem of going from \<open>a\<close> to \<open>z\<close> on the map behind the reference 0, and the
  heuristic function that \<^verbatim>\<open>HeuristicFunction(problem)\<close> builds for it, on the round trip
  and on the detour map alike. The second heuristic function has the same goal and ratios
  but the map behind the reference 1: it is built from a problem on another map object.
\<close>

definition detour_problem :: RouteProblem where
  "detour_problem = \<lparr>rmap = 0, start = ''a'', goal = Some ''z''\<rparr>"

definition detour_heuristic :: HeuristicFunction where
  "detour_heuristic =
     \<lparr>h_problem = detour_problem, h_goal = Some ''z'', h_map = 0,
      gasConsumption = [5 / 2, 1], efficientGas = 5 / 2\<rparr>"

definition other_map_heuristic :: HeuristicFunction where
  "other_map_heuristic =
     \<lparr>h_problem = \<lparr>rmap = 1, start = ''a'', goal = Some ''z''\<rparr>, h_goal = Some ''z'', h_map = 1,
      gasConsumption = [5 / 2, 1], efficientGas = 5 / 2\<rparr>"

lemmas search_eval =
  greedy_search_def a_star_search_def uniform_cost_search_def BFS_def DFS_def
  search_loop.simps search_loop0.simps is_goal_def is_goal_node_def expand_def depth_limit_def
  actions_def child_node_def result_def action_cost_def h_cost_def on_map_def one_map_def
  two_maps_def
  euclidean_distance_def location_coordinates_def get_def get_dict_def get_result_def
  get_result_dict_def setdefault_def keys_def visit_child_def replace_child_def node_in_def
  visit_child0_def Frontier0_init_def is_empty0_def pop0_def add0_def

lemma detour_heuristic_init:
  "HeuristicFunction_init (Some detour_problem) (one_map round_trip_map)
     = (Inr detour_heuristic, one_map round_trip_map)"
  by (simp add: HeuristicFunction_init_def detour_problem_def detour_heuristic_def on_map_def
      round_trip_map_eq keys_def euclidean_distance_def location_coordinates_def get_def
      setdefault_def sqrt_25)

lemma sqrt_100: "sqrt 100 = (10::real)"
  by (rule real_sqrt_unique) simp_all

lemma detour_heuristic_init_detour:
  "HeuristicFunction_init (Some detour_problem) (one_map detour_map)
     = (Inr detour_heuristic, one_map detour_map)"
  by (simp add: HeuristicFunction_init_def detour_problem_def detour_heuristic_def on_map_def
      detour_map_eq keys_def euclidean_distance_def location_coordinates_def get_def
      setdefault_def sqrt_25 sqrt_100)

lemma other_map_heuristic_init:
  "HeuristicFunction_init (Some \<lparr>rmap = 1, start = ''a'', goal = Some ''z''\<rparr>)
       (two_maps detour_map round_trip_map)
     = (Inr other_map_heuristic, two_maps detour_map round_trip_map)"
proof -
  have "(two_maps detour_map round_trip_map)(Suc 0 := round_trip_map)
      = two_maps detour_map round_trip_map"
    by (simp add: two_maps_def)
  then show ?thesis
    by (simp add: HeuristicFunction_init_def other_map_heuristic_def on_map_def
        round_trip_map_eq keys_def euclidean_distance_def location_coordinates_def get_def
        setdefault_def sqrt_25)
qed

lemma store_grows_search_loop: "store_grows s (snd (search_loop pol rc p st s))"
proof (induction pol rc p st s rule: search_loop.induct)
  case (1 pol rc p fr rs s)
  show ?case
  proof (cases "is_empty fr")
    case True
    then show ?thesis by (subst search_loop.simps) simp
  next
    case False
    then obtain node fr1 where pp: "pop fr = Inr (node, fr1)" using pop_Inr by blast
    show ?thesis
    proof (cases "is_goal p (loc node)")
      case True
      then show ?thesis using False pp by (subst search_loop.simps) simp
    next
      case ng: False
      obtain r s1 where ex: "expand node p s = (r, s1)" by (cases "expand node p s")
      have g1: "store_grows s s1" using store_grows_expand[of s node p] ex by simp
      show ?thesis
      proof (cases r)
        case (Inl e)
        then show ?thesis using False pp ng ex g1 by (subst search_loop.simps) simp
      next
        case (Inr cs)
        obtain st' where "for_children pol rc (fr1, rs) cs = Inr st'"
          using for_children_total[of pol rc "(fr1, rs)" cs] by blast
        then obtain fr' rs' where fc: "for_children pol rc (fr1, rs) cs = Inr (fr', rs')"
          by (cases st') simp
        have ex': "(Inr cs, s1) = expand node p s" using ex Inr by simp
        have "store_grows s1 (snd (search_loop pol rc p (fr', rs') s1))"
          by (rule "1.IH"[OF False pp refl ng ex' refl fc])
        then have "store_grows s (snd (search_loop pol rc p (fr', rs') s1))"
          using g1 by (rule store_grows_trans[rotated])
        then show ?thesis using False pp ng ex Inr fc by (subst search_loop.simps) simp
      qed
    qed
  qed
qed

lemma store_grows_search_loop0: "store_grows s (snd (search_loop0 rc p st s))"
proof (induction rc p st s rule: search_loop0.induct)
  case (1 rc p fr vs s)
  show ?case
  proof (cases "is_empty0 fr")
    case True
    then show ?thesis by (subst search_loop0.simps) simp
  next
    case False
    then obtain node fr1 where pp: "pop0 fr = Inr (node, fr1)" using pop0_Inr by blast
    show ?thesis
    proof (cases "is_goal p (loc node)")
      case True
      then show ?thesis using False pp by (subst search_loop0.simps) simp
    next
      case ng: False
      obtain r s1 where ex: "expand node p s = (r, s1)" by (cases "expand node p s")
      have g1: "store_grows s s1" using store_grows_expand[of s node p] ex by simp
      show ?thesis
      proof (cases r)
        case (Inl e)
        then show ?thesis using False pp ng ex g1 by (subst search_loop0.simps) simp
      next
        case (Inr cs)
        have ex': "(Inr cs, s1) = expand node p s" using ex Inr by simp
        have "store_grows s1
            (snd (search_loop0 rc p (foldl (visit_child0 rc) (fr1, vs) cs) s1))"
          by (rule "1.IH"[OF False pp refl ng ex' refl])
        then have "store_grows s
            (snd (search_loop0 rc p (foldl (visit_child0 rc) (fr1, vs) cs) s1))"
          using g1 by (rule store_grows_trans[rotated])
        then show ?thesis using False pp ng ex Inr by (subst search_loop0.simps) simp
      qed
    qed
  qed
qed

lemma store_grows_searches:
  "store_grows s (snd (BFS p rc s)) \<and>
   store_grows s (snd (DFS p rc s)) \<and>
   store_grows s (snd (uniform_cost_search p rc s)) \<and>
   store_grows s (snd (greedy_search p h rc s)) \<and>
   store_grows s (snd (a_star_search p h rc s))"
  by (simp add: BFS_def DFS_def uniform_cost_search_def greedy_search_def a_star_search_def
      Let_def store_grows_search_loop store_grows_search_loop0)

subsection \<open>Claims on the searches\<close>

text \<open>
  Claim C1. In \<^verbatim>\<open>uniform_cost_search\<close> and \<^verbatim>\<open>a_star_search\<close> the replacement test compares
  the frontier's value for the child with that same value, so it is false for every frontier
  and child; with repeated-state checking on, a child whose location has been reached leaves
  the frontier and the list of reached nodes as they were: no entry is removed or replaced.
\<close>

theorem replace_branch_is_dead:
  "replace_condition fr child = Inr False \<and>
   (node_in child reachedNodes \<longrightarrow>
      replace_child True (fr, reachedNodes) child = Inr (fr, reachedNodes))"
  by (simp add: replace_condition_False replace_child_def)

theorem replace_branch_is_dead_witness:
  "node_in (example_node ''a'' 1) [example_node ''a'' 5] \<and>
   contains (Frontier_init (example_node ''a'' 5) (SortStr ''g'')) (example_node ''a'' 1) \<and>
   replace_condition (Frontier_init (example_node ''a'' 5) (SortStr ''g'')) (example_node ''a'' 1)
     = Inr False \<and>
   replace_child True (Frontier_init (example_node ''a'' 5) (SortStr ''g''), [example_node ''a'' 5])
       (example_node ''a'' 1)
     = Inr (Frontier_init (example_node ''a'' 5) (SortStr ''g''), [example_node ''a'' 5])"
proof -
  have n: "node_in (example_node ''a'' 1) [example_node ''a'' 5]"
    by (simp add: node_in_def example_node_def Node_init_def)
  have c: "contains (Frontier_init (example_node ''a'' 5) (SortStr ''g'')) (example_node ''a'' 1)"
    by (simp add: contains_def Frontier_contains_def Frontier_init_def example_node_def Node_init_def)
  show ?thesis
    using replace_branch_is_dead[of "Frontier_init (example_node ''a'' 5) (SortStr ''g'')"
        "example_node ''a'' 1" "[example_node ''a'' 5]"] n c
    by simp
qed

text \<open>
  Claim C8, as amended. Take a problem whose named roads all have a cost (every map built by
  \<^verbatim>\<open>add_road\<close>) and whose goal is not reachable from its start. Then \<^verbatim>\<open>BFS\<close>, \<^verbatim>\<open>DFS\<close> and
  \<^verbatim>\<open>uniform_cost_search\<close> return \<^verbatim>\<open>None\<close>, with and without repeated-state checking, and so
  do \<^verbatim>\<open>greedy_search\<close> and \<^verbatim>\<open>a_star_search\<close> when their heuristic evaluates at every
  location reachable from the start: there is no heuristic, or its \<^verbatim>\<open>efficientGas\<close> is not
  zero and its own map stores its goal and every such location with both coordinates
  non-zero. The loops of the searches are total functions: each turn removes a node from the
  frontier and adds at most its children, and the tree below a node is finite because nodes
  at depth 20 have no children.
\<close>

theorem searches_return_None_when_goal_unreachable:
  assumes costs: "roads_have_costs (s (rmap p))"
    and unreach: "\<forall>l. reachable (s (rmap p)) (start p) l \<longrightarrow> goal p \<noteq> Some l"
    and hok: "\<forall>l. reachable (s (rmap p)) (start p) l \<longrightarrow> heuristic_ok h s l"
  shows "fst (BFS p rc s) = Inr None \<and> fst (DFS p rc s) = Inr None \<and>
         fst (uniform_cost_search p rc s) = Inr None \<and>
         fst (greedy_search p h rc s) = Inr None \<and> fst (a_star_search p h rc s) = Inr None"
proof -
  have none_ok: "\<forall>l. reachable (s (rmap p)) (start p) l \<longrightarrow> heuristic_ok None s l"
    by (simp add: heuristic_ok_def)
  have "goal p \<noteq> Some (start p)" using unreach reachable_refl by blast
  then have ng: "\<not> is_goal p (start p)" by (auto simp: is_goal_def)
  have loop: "fst (search_loop pol rc p
        (Frontier_init (Node_init (start p) None None 0 0 hf) sb, rs) s) = Inr None"
    if "\<forall>l. reachable (s (rmap p)) (start p) l \<longrightarrow> heuristic_ok hf s l" for pol hf sb rs
    by (rule search_loop_None[where ?s0.0 = s and ?r0.0 = "rmap p", OF costs unreach that])
       (simp_all add: Frontier_init_fringe Node_init_def)
  have loop0: "fst (search_loop0 rc p
        (Frontier0_init (Node_init (start p) None None 0 0 None) b, vs) s) = Inr None" for b vs
    by (rule search_loop0_None[where ?s0.0 = s and ?r0.0 = "rmap p", OF costs unreach])
       (simp_all add: Frontier0_init_def Node_init_def)
  show ?thesis
    using loop[OF none_ok] loop[OF hok] loop0 ng
    by (simp add: BFS_def DFS_def uniform_cost_search_def greedy_search_def a_star_search_def
        is_goal_node_False Let_def Node_init_def)
qed

theorem searches_return_None_when_goal_unreachable_witness:
  "roads_have_costs detour_map \<and>
   \<not> reachable detour_map (start detour_problem) ''z'' \<and> goal detour_problem = Some ''z'' \<and>
   HeuristicFunction_init (Some detour_problem) (one_map detour_map)
     = (Inr detour_heuristic, one_map detour_map) \<and>
   fst (BFS detour_problem True (one_map detour_map)) = Inr None \<and>
   fst (BFS detour_problem False (one_map detour_map)) = Inr None \<and>
   fst (DFS detour_problem True (one_map detour_map)) = Inr None \<and>
   fst (uniform_cost_search detour_problem True (one_map detour_map)) = Inr None \<and>
   fst (greedy_search detour_problem (Some detour_heuristic) True (one_map detour_map))
     = Inr None \<and>
   fst (a_star_search detour_problem (Some detour_heuristic) False (one_map detour_map))
     = Inr None \<and>
   fst (greedy_search detour_problem (Some other_map_heuristic) False
          (two_maps detour_map detour_map)) = Inr None"
proof -
  have r: "\<And>l. reachable detour_map ''a'' l \<Longrightarrow> l = ''a'' \<or> l = ''b''"
    using detour_map_reachable by simp
  have c: "roads_have_costs (one_map detour_map (rmap detour_problem))"
    and c': "roads_have_costs ((two_maps detour_map detour_map) (rmap detour_problem))"
    by (simp_all add: detour_problem_def detour_map_costs)
  have u: "\<forall>l. reachable (one_map detour_map (rmap detour_problem)) (start detour_problem) l
              \<longrightarrow> goal detour_problem \<noteq> Some l"
    and u': "\<forall>l. reachable ((two_maps detour_map detour_map) (rmap detour_problem))
                (start detour_problem) l \<longrightarrow> goal detour_problem \<noteq> Some l"
    using r by (auto simp: detour_problem_def)
  have h: "\<forall>l. reachable (one_map detour_map (rmap detour_problem)) (start detour_problem) l
              \<longrightarrow> heuristic_ok (Some detour_heuristic) (one_map detour_map) l"
    using r
    by (auto simp: detour_problem_def detour_heuristic_def heuristic_ok_def has_coordinates_def
        detour_map_eq)
  have h': "\<forall>l. reachable ((two_maps detour_map detour_map) (rmap detour_problem))
                (start detour_problem) l
              \<longrightarrow> heuristic_ok (Some other_map_heuristic) (two_maps detour_map detour_map) l"
    using r
    by (auto simp: detour_problem_def other_map_heuristic_def heuristic_ok_def
        has_coordinates_def detour_map_eq)
  have nz: "\<not> reachable detour_map (start detour_problem) ''z''"
    using r[of "''z''"] by (auto simp: detour_problem_def)
  show ?thesis
    using searches_return_None_when_goal_unreachable[OF c u h, of True]
      searches_return_None_when_goal_unreachable[OF c u h, of False]
      searches_return_None_when_goal_unreachable[OF c' u' h', of False]
      detour_map_costs nz detour_heuristic_init_detour
    by (simp add: detour_problem_def)
qed

text \<open>
  The claim C8 as stated fails in three ways, each on a problem from \<open>a\<close> to the goal
  \<open>z\<close> that no road reaches. On the round trip between \<open>a\<close> and \<open>b\<close>, where \<open>z\<close> has
  no coordinates, the heuristic function can be constructed from the problem, and
  \<^verbatim>\<open>greedy_search\<close> and \<^verbatim>\<open>a_star_search\<close> raise when the first child is evaluated. On the
  detour map, where every location has coordinates, \<^verbatim>\<open>greedy_search\<close> raises as well when
  its heuristic function was built on another map object, one that does not store \<open>z\<close>.
  On the map with a road that has no cost, \<^verbatim>\<open>uniform_cost_search\<close>, \<^verbatim>\<open>BFS\<close> and \<^verbatim>\<open>DFS\<close>
  raise when the first child is generated.
\<close>

theorem searches_raise_counterexample:
  "roads_have_costs round_trip_map \<and> roads_have_costs detour_map \<and>
   \<not> reachable round_trip_map (start detour_problem) ''z'' \<and>
   \<not> reachable detour_map (start detour_problem) ''z'' \<and>
   \<not> reachable costless_road_map (start detour_problem) ''z'' \<and>
   goal detour_problem = Some ''z'' \<and> rmap detour_problem = 0 \<and>
   HeuristicFunction_init (Some detour_problem) (one_map round_trip_map)
     = (Inr detour_heuristic, one_map round_trip_map) \<and>
   fst (greedy_search detour_problem (Some detour_heuristic) False (one_map round_trip_map))
     = Inl (Exception ''Unknown location - z'') \<and>
   fst (a_star_search detour_problem (Some detour_heuristic) True (one_map round_trip_map))
     = Inl (Exception ''Unknown location - z'') \<and>
   HeuristicFunction_init (Some \<lparr>rmap = 1, start = ''a'', goal = Some ''z''\<rparr>)
       (two_maps detour_map round_trip_map)
     = (Inr other_map_heuristic, two_maps detour_map round_trip_map) \<and>
   fst (greedy_search detour_problem (Some other_map_heuristic) False
          (two_maps detour_map round_trip_map))
     = Inl (Exception ''Unknown location - z'') \<and>
   fst (uniform_cost_search detour_problem False (one_map costless_road_map)) = Inl TypeError \<and>
   fst (BFS detour_problem False (one_map costless_road_map)) = Inl TypeError \<and>
   fst (DFS detour_problem True (one_map costless_road_map)) = Inl TypeError"
proof -
  have r1: "\<not> reachable round_trip_map (start detour_problem) ''z''"
    using round_trip_map_reachable[of "''z''"] by (auto simp: detour_problem_def)
  have r2: "\<not> reachable detour_map (start detour_problem) ''z''"
    using detour_map_reachable[of "''z''"] by (auto simp: detour_problem_def)
  have r3: "\<not> reachable costless_road_map (start detour_problem) ''z''"
    using costless_road_map_reachable[of "''z''"] by (auto simp: detour_problem_def)
  have g: "fst (greedy_search detour_problem (Some detour_heuristic) False
              (one_map round_trip_map)) = Inl (Exception ''Unknown location - z'')"
    by (simp add: search_eval frontier_eval detour_problem_def detour_heuristic_def
        round_trip_map_eq)
  have a: "fst (a_star_search detour_problem (Some detour_heuristic) True
              (one_map round_trip_map)) = Inl (Exception ''Unknown location - z'')"
    by (simp add: search_eval frontier_eval detour_problem_def detour_heuristic_def
        round_trip_map_eq)
  have o: "fst (greedy_search detour_problem (Some other_map_heuristic) False
              (two_maps detour_map round_trip_map))
            = Inl (Exception ''Unknown location - z'')"
    by (simp add: search_eval frontier_eval detour_problem_def other_map_heuristic_def
        round_trip_map_eq detour_map_eq)
  have u: "fst (uniform_cost_search detour_problem False (one_map costless_road_map))
            = Inl TypeError"
    by (simp add: search_eval frontier_eval detour_problem_def costless_road_map_def)
  have b: "fst (BFS detour_problem False (one_map costless_road_map)) = Inl TypeError"
    by (simp add: search_eval frontier_eval detour_problem_def costless_road_map_def)
  have d: "fst (DFS detour_problem True (one_map costless_road_map)) = Inl TypeError"
    by (simp add: search_eval frontier_eval detour_problem_def costless_road_map_def)
  show ?thesis
    using r1 r2 r3 g a o u b d detour_heuristic_init other_map_heuristic_init
      round_trip_map_costs detour_map_costs
    by (simp add: detour_problem_def)
qed

subsection \<open>What the lookups and the searches change in the maps\<close>

text \<open>
  Claim C4, as amended. The claim says that no lookup changes the three dictionaries, also
  when the queried start or location is absent. The lookups go through \<^verbatim>\<open>setdefault\<close>:
  \<^verbatim>\<open>get\<close>, \<^verbatim>\<open>get_result\<close> and \<^verbatim>\<open>location_coordinates\<close> leave the map as it was exactly
  when the queried key is present in the dictionary they read; when it is absent they
  append one entry for it (an empty inner dictionary, or the coordinates (0, 0)) and change
  nothing else. \<^verbatim>\<open>path_cost\<close> leaves \<^verbatim>\<open>loc_dict\<close> as it was, and appends to the other
  two dictionaries only entries with an empty inner dictionary for keys they lacked. Each of
  the five searches, whatever it returns or raises, leaves every entry of the three
  dictionaries of every map as it was and appends only such default entries for keys they
  lacked.
\<close>

theorem lookups_only_append:
  "snd (get m a e) =
     m\<lparr>connection_dict :=
          if a \<in> set (keys (connection_dict m)) then connection_dict m
          else connection_dict m @ [(a, [])]\<rparr> \<and>
   snd (get_result m a rd) =
     m\<lparr>road_dict :=
          if a \<in> set (keys (road_dict m)) then road_dict m
          else road_dict m @ [(a, [])]\<rparr> \<and>
   snd (location_coordinates m a) =
     m\<lparr>loc_dict :=
          if a \<in> set (keys (loc_dict m)) then loc_dict m
          else loc_dict m @ [(a, (0, 0))]\<rparr> \<and>
   loc_dict (snd (path_cost m a road_list)) = loc_dict m \<and>
   only_appends [] (connection_dict m) (connection_dict (snd (path_cost m a road_list))) \<and>
   only_appends [] (road_dict m) (road_dict (snd (path_cost m a road_list))) \<and>
   store_grows s (snd (BFS p rc s)) \<and>
   store_grows s (snd (DFS p rc s)) \<and>
   store_grows s (snd (uniform_cost_search p rc s)) \<and>
   store_grows s (snd (greedy_search p h rc s)) \<and>
   store_grows s (snd (a_star_search p h rc s))"
  using path_cost_loop_frame[of m 0 a road_list] store_grows_searches[of s p rc h]
  by (simp add: snd_get snd_get_result snd_location_coordinates path_cost_def)

theorem lookups_only_append_witness:
  "snd (get example_map ''c'' ''a'') =
     example_map\<lparr>connection_dict := connection_dict example_map @ [(''c'', [])]\<rparr> \<and>
   snd (get example_map ''a'' ''b'') = example_map \<and>
   only_appends [] (road_dict example_map)
     (road_dict (snd (path_cost example_map ''a'' [''r1'', ''r2'', ''r3'']))) \<and>
   store_grows (one_map detour_map) (snd (BFS detour_problem True (one_map detour_map))) \<and>
   store_grows (one_map detour_map)
     (snd (a_star_search detour_problem (Some detour_heuristic) False (one_map detour_map)))"
  using lookups_only_append[of example_map "''c''" "''a''" "''r1''" "[]"]
    lookups_only_append[of example_map "''a''" "''b''" "''r1''" "[''r1'', ''r2'', ''r3'']"
      "one_map detour_map" detour_problem True "Some detour_heuristic"]
    lookups_only_append[of example_map "''a''" "''b''" "''r1''" "[]"
      "one_map detour_map" detour_problem False "Some detour_heuristic"]
  by (simp add: example_map_eq keys_def)

text \<open>
  The claim C4 as stated fails on the empty map: each of the four lookups, asked about the
  absent location \<open>a\<close>, returns a map that is not the one it was given.
\<close>

theorem map_immutable_counterexample:
  "snd (get RoadMap_init ''a'' ''b'') \<noteq> RoadMap_init \<and>
   snd (get_result RoadMap_init ''a'' ''r'') \<noteq> RoadMap_init \<and>
   snd (location_coordinates RoadMap_init ''a'') \<noteq> RoadMap_init \<and>
   snd (path_cost RoadMap_init ''a'' [''r'']) \<noteq> RoadMap_init"
  by (simp add: get_def get_result_def location_coordinates_def path_cost_def
      RoadMap_init_def setdefault_def)

end
